theory Spec2Isabelle
  imports Main "HOL-Library.Multiset"
begin

section \<open>Strings\<close>

text \<open>
  A Python \<open>str\<close> is a sequence of code points. The development models the code points
  U+0000 .. U+00FF: a \<^typ>\<open>char\<close> stands for the code point with the same number, so that
  \<open>CHR 0xE9\<close> is the letter e with acute accent. The character classes below are those of
  CPython for that range: \<open>str.lower\<close>, the class \<open>\s\<close> of \<open>re\<close> on \<open>str\<close> patterns (which is
  \<open>str.isspace\<close>) and the class \<open>\w\<close> (alphanumeric or underscore).
\<close>

definition code :: "char \<Rightarrow> nat" where
  "code c = of_char c"

definition py_isspace :: "char \<Rightarrow> bool" where
  "py_isspace c = (let n = code c in
     (9 \<le> n \<and> n \<le> 13) \<or> (28 \<le> n \<and> n \<le> 32) \<or> n = 133 \<or> n = 160)"

definition py_isword :: "char \<Rightarrow> bool" where
  "py_isword c = (let n = code c in
     (48 \<le> n \<and> n \<le> 57) \<or> (65 \<le> n \<and> n \<le> 90) \<or> n = 95 \<or> (97 \<le> n \<and> n \<le> 122)
     \<or> n = 170 \<or> n = 178 \<or> n = 179 \<or> n = 181 \<or> n = 185 \<or> n = 186
     \<or> (188 \<le> n \<and> n \<le> 190) \<or> (192 \<le> n \<and> n \<le> 214) \<or> (216 \<le> n \<and> n \<le> 246)
     \<or> (248 \<le> n \<and> n \<le> 255))"

definition py_isupper :: "char \<Rightarrow> bool" where
  "py_isupper c = (let n = code c in
     (65 \<le> n \<and> n \<le> 90) \<or> (192 \<le> n \<and> n \<le> 222 \<and> n \<noteq> 215))"

definition lower_char :: "char \<Rightarrow> char" where
  "lower_char c = (if py_isupper c then char_of (code c + 32) else c)"

definition lower :: "string \<Rightarrow> string" where
  "lower text = map lower_char text"

text \<open>\<open>str.strip(chars)\<close> with a one-character argument.\<close>

definition strip_char :: "char \<Rightarrow> string \<Rightarrow> string" where
  "strip_char d text = rev (dropWhile (\<lambda>c. c = d) (rev (dropWhile (\<lambda>c. c = d) text)))"

text \<open>\<open>str(n)\<close> of a non-negative integer: its decimal digits.\<close>

definition digit_char :: "nat \<Rightarrow> char" where
  "digit_char d = char_of (48 + d)"

fun str_nat :: "nat \<Rightarrow> string" where
  "str_nat n = (if n < 10 then [digit_char n] else str_nat (n div 10) @ [digit_char (n mod 10)])"

declare str_nat.simps [simp del]

section \<open>The slug of a display name (anuncio/models.py)\<close>

text \<open>
  \<open>re.sub(r'[^\w\s-]', '', text)\<close> deletes every character that is neither a word
  character, nor white space, nor a hyphen.
\<close>

definition keep_char :: "char \<Rightarrow> bool" where
  "keep_char c = (py_isword c \<or> py_isspace c \<or> c = CHR ''-'')"

definition sub_unwanted :: "string \<Rightarrow> string" where
  "sub_unwanted text = filter keep_char text"

text \<open>
  \<open>re.sub(r'[-\s]+', '-', text)\<close> replaces every maximal run of hyphens and white space
  by one hyphen.
\<close>

definition sep_char :: "char \<Rightarrow> bool" where
  "sep_char c = (c = CHR ''-'' \<or> py_isspace c)"

function sub_runs :: "string \<Rightarrow> string" where
  "sub_runs [] = []"
| "sub_runs (c # cs) =
     (if sep_char c then CHR ''-'' # sub_runs (dropWhile sep_char cs) else c # sub_runs cs)"
  by pat_completeness auto
termination
  by (relation "measure length") (auto simp: length_dropWhile_le less_Suc_eq_le)

definition simple_slugify :: "string \<Rightarrow> string" where
  "simple_slugify text = strip_char (CHR ''-'') (sub_runs (sub_unwanted (lower text)))"

section \<open>The asset table\<close>

text \<open>
  The storage layer is SQLAlchemy over a relational database. What the models rely on is
  written out here: a table is the list of its rows in insertion order, a query
  \<open>select(Asset).where(Asset.slug == s)\<close> yields the first matching row or \<open>None\<close>, and
  \<open>session.add(obj); session.commit()\<close> inserts the object when it has no primary key yet and
  updates its row otherwise, raising \<open>IntegrityError\<close> when a \<open>unique\<close> or \<open>nullable=False\<close>
  column constraint would be broken. After \<open>session.rollback()\<close> an object that was pending is
  transient again and keeps its attributes, while a persistent object is expired and reads
  its attributes from its row.
\<close>

datatype error = IntegrityError | ValueError

definition batch :: "'a list list \<Rightarrow> 'a list" where
  "batch env = (case env of [] \<Rightarrow> [] | b # _ \<Rightarrow> b)"

text \<open>Python's truth value of an attribute that is \<open>None\<close> or a string.\<close>

definition truthy :: "string option \<Rightarrow> bool" where
  "truthy v = (case v of None \<Rightarrow> False | Some s \<Rightarrow> s \<noteq> [])"

subsection \<open>anuncio: class Asset\<close>

record an_asset =
  an_id :: "nat option"
  an_user_id :: nat
  an_name :: string
  an_description :: string
  an_value :: int
  an_slug :: "string option"
  an_timestamp :: "int option"

definition an_get_by_slug :: "an_asset list \<Rightarrow> string \<Rightarrow> an_asset option" where
  "an_get_by_slug t s = find (\<lambda>r. an_slug r = Some s) t"

definition an_ids :: "an_asset list \<Rightarrow> nat list" where
  "an_ids t = concat (map (\<lambda>r. case an_id r of None \<Rightarrow> [] | Some i \<Rightarrow> [i]) t)"

definition an_new_id :: "an_asset list \<Rightarrow> nat" where
  "an_new_id t = Suc (fold max (an_ids t) 0)"

text \<open>
  \<open>add\<close> and \<open>commit\<close> of one object at time \<open>now\<close> (the column default of \<open>timestamp\<close> is
  \<open>datetime.utcnow\<close>). The value is the new table and the object as it is after the commit.
\<close>

definition an_commit :: "an_asset list \<Rightarrow> int \<Rightarrow> an_asset \<Rightarrow> error + an_asset list \<times> an_asset" where
  "an_commit t now a =
     (case an_slug a of
        None \<Rightarrow> Inl IntegrityError
      | Some s \<Rightarrow>
          (case an_id a of
             None \<Rightarrow>
               if an_get_by_slug t s \<noteq> None then Inl IntegrityError
               else (let a' = a\<lparr>an_id := Some (an_new_id t),
                                  an_timestamp := (case an_timestamp a of
                                                     None \<Rightarrow> Some now | Some ts \<Rightarrow> Some ts)\<rparr>
                     in Inr (t @ [a'], a'))
           | Some i \<Rightarrow>
               if \<exists>r \<in> set t. an_id r \<noteq> Some i \<and> an_slug r = Some s then Inl IntegrityError
               else Inr (map (\<lambda>r. if an_id r = Some i then a else r) t, a)))"

definition an_rollback :: "an_asset list \<Rightarrow> an_asset \<Rightarrow> an_asset" where
  "an_rollback t a =
     (case an_id a of
        None \<Rightarrow> a
      | Some i \<Rightarrow> (case find (\<lambda>r. an_id r = Some i) t of None \<Rightarrow> a | Some r \<Rightarrow> r))"

text \<open>
  Other writers: the rows they commit while this request is between its probe and its
  write. Their commits obey the same constraints, so a row that would break one is not
  stored.
\<close>

definition an_others :: "an_asset list \<Rightarrow> int \<Rightarrow> an_asset list \<Rightarrow> an_asset list" where
  "an_others t now rows =
     foldl (\<lambda>t' r. case an_commit t' now r of Inl _ \<Rightarrow> t' | Inr (t'', _) \<Rightarrow> t'') t rows"

text \<open>
  \<open>_generate_unique_slug\<close>: the loop \<open>while scalar(select(Asset).where(Asset.slug == slug))\<close>
  with its two variables \<open>slug\<close> and \<open>counter\<close>.
\<close>

definition an_taken :: "an_asset list \<Rightarrow> string \<Rightarrow> bool" where
  "an_taken t s = (an_get_by_slug t s \<noteq> None)"

definition suffixed :: "string \<Rightarrow> nat \<Rightarrow> string" where
  "suffixed base_slug counter = base_slug @ ''-'' @ str_nat counter"

lemma code_char_of: "n < 256 \<Longrightarrow> code (char_of n) = n"
  by (simp add: code_def)

lemma digit_char_inj: "d < 10 \<Longrightarrow> e < 10 \<Longrightarrow> digit_char d = digit_char e \<Longrightarrow> d = e"
proof -
  assume d: "d < 10" and e: "e < 10" and eq: "digit_char d = digit_char e"
  from eq have "code (char_of (48 + d)) = code (char_of (48 + e))"
    unfolding digit_char_def by (rule arg_cong)
  with d e show "d = e" by (simp add: code_char_of)
qed

lemma str_nat_nonempty: "str_nat n \<noteq> []"
  by (subst str_nat.simps) simp

lemma str_nat_inj: "str_nat m = str_nat n \<Longrightarrow> m = n"
proof (induction m arbitrary: n rule: str_nat.induct)
  case (1 m)
  show ?case
  proof (cases "m < 10")
    case True
    show ?thesis
    proof (cases "n < 10")
      case nl: True
      from "1.prems" True nl have "digit_char m = digit_char n"
        by (simp add: str_nat.simps)
      with True nl show ?thesis by (simp add: digit_char_inj)
    next
      case False
      with "1.prems" True have "[digit_char m] = str_nat (n div 10) @ [digit_char (n mod 10)]"
        by (simp add: str_nat.simps)
      then show ?thesis using str_nat_nonempty[of "n div 10"] by simp
    qed
  next
    case mf: False
    show ?thesis
    proof (cases "n < 10")
      case True
      with "1.prems" mf have "str_nat (m div 10) @ [digit_char (m mod 10)] = [digit_char n]"
        by (simp add: str_nat.simps)
      then show ?thesis using str_nat_nonempty[of "m div 10"] by simp
    next
      case False
      with "1.prems" mf
      have "str_nat (m div 10) @ [digit_char (m mod 10)]
            = str_nat (n div 10) @ [digit_char (n mod 10)]"
        by (simp add: str_nat.simps)
      then have a: "str_nat (m div 10) = str_nat (n div 10)"
        and b: "digit_char (m mod 10) = digit_char (n mod 10)"
        by simp_all
      from "1.IH"[OF mf a] have d: "m div 10 = n div 10" .
      from b have "m mod 10 = n mod 10" by (intro digit_char_inj) simp_all
      with d show ?thesis by (metis div_mult_mod_eq)
    qed
  qed
qed

lemma suffixed_inj: "suffixed b m = suffixed b n \<Longrightarrow> m = n"
  by (simp add: suffixed_def str_nat_inj)

lemma suffixed_neq_base: "suffixed b k \<noteq> b"
  by (simp add: suffixed_def)

lemma an_taken_iff: "an_taken t s \<longleftrightarrow> Some s \<in> an_slug ` set t"
  by (force simp: an_taken_def an_get_by_slug_def find_None_iff)

lemma finite_suffixed_taken: "finite {k. an_taken t (suffixed b k)}"
proof -
  have "{k. an_taken t (suffixed b k)} = (\<lambda>k. Some (suffixed b k)) -` (an_slug ` set t)"
    by (auto simp: an_taken_iff)
  moreover have "inj (\<lambda>k. Some (suffixed b k))"
    by (auto simp: inj_on_def dest: suffixed_inj)
  ultimately show ?thesis by (simp add: finite_vimageI)
qed

lemma card_from_Suc:
  assumes "finite {k. P k}"
  shows "card {k. Suc c \<le> k \<and> P k} + (if P c then 1 else 0) = card {k::nat. c \<le> k \<and> P k}"
proof -
  have fin: "finite {k. Suc c \<le> k \<and> P k}" using assms by simp
  show ?thesis
  proof (cases "P c")
    case True
    then have "{k. c \<le> k \<and> P k} = insert c {k. Suc c \<le> k \<and> P k}" by (auto simp: le_Suc_eq)
    with fin True show ?thesis by simp
  next
    case False
    then have "{k. c \<le> k \<and> P k} = {k. Suc c \<le> k \<and> P k}"
      by (auto simp: Suc_le_eq le_less)
    with False show ?thesis by simp
  qed
qed

function an_probe :: "an_asset list \<Rightarrow> string \<Rightarrow> string \<Rightarrow> nat \<Rightarrow> string" where
  "an_probe t base_slug slug counter =
     (if an_taken t slug then an_probe t base_slug (suffixed base_slug counter) (Suc counter)
      else slug)"
  by pat_completeness auto
termination
proof (relation "measure (\<lambda>(t, b, s, c).
         card {k. c \<le> k \<and> an_taken t (suffixed b k)} + (if an_taken t s then 1 else 0))")
  show "wf (measure (\<lambda>(t, b, s, c).
         card {k. c \<le> k \<and> an_taken t (suffixed b k)} + (if an_taken t s then 1 else 0)))"
    by simp
next
  fix t :: "an_asset list" and base_slug slug :: string and counter :: nat
  assume tk: "an_taken t slug"
  have "card {k. Suc counter \<le> k \<and> an_taken t (suffixed base_slug k)}
          + (if an_taken t (suffixed base_slug counter) then 1 else 0)
        = card {k. counter \<le> k \<and> an_taken t (suffixed base_slug k)}"
    by (rule card_from_Suc) (rule finite_suffixed_taken)
  with tk
  show "((t, base_slug, suffixed base_slug counter, Suc counter), (t, base_slug, slug, counter))
      \<in> measure (\<lambda>(t, b, s, c).
         card {k. c \<le> k \<and> an_taken t (suffixed b k)} + (if an_taken t s then 1 else 0))"
    by simp
qed

declare an_probe.simps [simp del]

definition generate_unique_slug :: "an_asset list \<Rightarrow> string \<Rightarrow> string" where
  "generate_unique_slug t name =
     (let base_slug = simple_slugify name in an_probe t base_slug base_slug 1)"

text \<open>
  \<open>Asset.save\<close>. The first element of \<open>env\<close> is what other writers commit between the first
  probe and the first write, the second what they commit between the probe and the write of
  the \<open>except\<close> branch. \<open>IntegrityError\<close> is the only exception of \<open>commit\<close> here, so the
  branch \<open>Inl\<close> is the clause \<open>except IntegrityError\<close>. An \<open>IntegrityError\<close> of the second
  \<open>commit\<close> is not caught.
\<close>

definition an_save ::
  "an_asset list \<Rightarrow> an_asset list list \<Rightarrow> int \<Rightarrow> an_asset \<Rightarrow> error + an_asset list \<times> an_asset" where
  "an_save t env now a =
     (let a1 = (if \<not> truthy (an_slug a)
                then a\<lparr>an_slug := Some (generate_unique_slug t (an_name a))\<rparr> else a);
          t1 = an_others t now (batch env)
      in case an_commit t1 now a1 of
           Inr r \<Rightarrow> Inr r
         | Inl e \<Rightarrow>
             (let a2 = an_rollback t1 a1;
                  a3 = a2\<lparr>an_slug := Some (generate_unique_slug t1 (an_name a2))\<rparr>;
                  t2 = an_others t1 now (batch (tl env))
              in an_commit t2 now a3))"

subsection \<open>asset\_manager: class Asset\<close>

record am_asset =
  am_id :: "nat option"
  am_user_id :: nat
  am_name :: string
  am_serial_number :: string
  am_description :: string
  am_slug :: "string option"
  am_created_at :: "int option"

text \<open>\<open>Asset.query.filter_by(slug=s).first()\<close> and \<open>filter_by(serial_number=n).first()\<close>.\<close>

definition am_get_by_slug :: "am_asset list \<Rightarrow> string \<Rightarrow> am_asset option" where
  "am_get_by_slug t s = find (\<lambda>r. am_slug r = Some s) t"

definition am_get_by_serial :: "am_asset list \<Rightarrow> string \<Rightarrow> am_asset option" where
  "am_get_by_serial t n = find (\<lambda>r. am_serial_number r = n) t"

text \<open>
  The primary key of a new row is the successor of the largest key of the table, as in
  anuncio. PostgreSQL draws it from a sequence that also advances on an \<open>INSERT\<close> that
  fails, so the keys of a real table can be larger than here; nothing below depends on more
  than that the key is new.
\<close>

definition am_ids :: "am_asset list \<Rightarrow> nat list" where
  "am_ids t = concat (map (\<lambda>r. case am_id r of None \<Rightarrow> [] | Some i \<Rightarrow> [i]) t)"

definition am_new_id :: "am_asset list \<Rightarrow> nat" where
  "am_new_id t = Suc (fold max (am_ids t) 0)"

text \<open>Both \<open>slug\<close> and \<open>serial_number\<close> are \<open>unique\<close> columns.\<close>

definition am_commit :: "am_asset list \<Rightarrow> int \<Rightarrow> am_asset \<Rightarrow> error + am_asset list \<times> am_asset" where
  "am_commit t now a =
     (case am_slug a of
        None \<Rightarrow> Inl IntegrityError
      | Some s \<Rightarrow>
          (case am_id a of
             None \<Rightarrow>
               if am_get_by_slug t s \<noteq> None \<or> am_get_by_serial t (am_serial_number a) \<noteq> None
               then Inl IntegrityError
               else (let a' = a\<lparr>am_id := Some (am_new_id t),
                                  am_created_at := (case am_created_at a of
                                                      None \<Rightarrow> Some now | Some ts \<Rightarrow> Some ts)\<rparr>
                     in Inr (t @ [a'], a'))
           | Some i \<Rightarrow>
               if \<exists>r \<in> set t. am_id r \<noteq> Some i
                     \<and> (am_slug r = Some s \<or> am_serial_number r = am_serial_number a)
               then Inl IntegrityError
               else Inr (map (\<lambda>r. if am_id r = Some i then a else r) t, a)))"

definition am_rollback :: "am_asset list \<Rightarrow> am_asset \<Rightarrow> am_asset" where
  "am_rollback t a =
     (case am_id a of
        None \<Rightarrow> a
      | Some i \<Rightarrow> (case find (\<lambda>r. am_id r = Some i) t of None \<Rightarrow> a | Some r \<Rightarrow> r))"

definition am_others :: "am_asset list \<Rightarrow> int \<Rightarrow> am_asset list \<Rightarrow> am_asset list" where
  "am_others t now rows =
     foldl (\<lambda>t' r. case am_commit t' now r of Inl _ \<Rightarrow> t' | Inr (t'', _) \<Rightarrow> t'') t rows"

definition am_taken :: "am_asset list \<Rightarrow> string \<Rightarrow> bool" where
  "am_taken t s = (am_get_by_slug t s \<noteq> None)"

text \<open>\<open>current_slug = f"{base_slug}-{counter}" if counter > 0 else base_slug\<close>\<close>

definition current_slug :: "string \<Rightarrow> nat \<Rightarrow> string" where
  "current_slug base_slug counter = (if counter > 0 then suffixed base_slug counter else base_slug)"

lemma current_slug_inj: "current_slug b m = current_slug b n \<Longrightarrow> m = n"
  using suffixed_neq_base[of b m] suffixed_neq_base[of b n]
  by (auto simp: current_slug_def dest: suffixed_inj split: if_splits)

lemma am_taken_iff: "am_taken t s \<longleftrightarrow> Some s \<in> am_slug ` set t"
  by (force simp: am_taken_def am_get_by_slug_def find_None_iff)

lemma finite_current_taken: "finite {k. am_taken t (current_slug b k)}"
proof -
  have "{k. am_taken t (current_slug b k)} = (\<lambda>k. Some (current_slug b k)) -` (am_slug ` set t)"
    by (auto simp: am_taken_iff)
  moreover have "inj (\<lambda>k. Some (current_slug b k))"
    by (auto simp: inj_on_def dest: current_slug_inj)
  ultimately show ?thesis by (simp add: finite_vimageI)
qed

text \<open>
  The body of \<open>Asset.save\<close>: the loop \<open>while True\<close> with its variable \<open>counter\<close>. Before each
  \<open>commit\<close> the other writers commit the first element of \<open>env\<close>; when \<open>env\<close> is used up they
  are silent. The value \<open>Inr\<close> is the \<open>return True\<close>, with the table and the object as they
  are then. \<open>IntegrityError\<close> is the only exception of \<open>commit\<close> here, so the branch \<open>Inl\<close> is
  the clause \<open>except IntegrityError\<close>, and its last line is the bare \<open>raise\<close>.
\<close>

function am_loop ::
  "string \<Rightarrow> am_asset list \<Rightarrow> am_asset list list \<Rightarrow> int \<Rightarrow> am_asset \<Rightarrow> nat
     \<Rightarrow> error + am_asset list \<times> am_asset" where
  "am_loop base_slug t env now a counter =
     (let a1 = a\<lparr>am_slug := Some (current_slug base_slug counter)\<rparr>;
          t1 = am_others t now (batch env)
      in case am_commit t1 now a1 of
           Inr r \<Rightarrow> Inr r
         | Inl e \<Rightarrow>
             if am_taken t1 (current_slug base_slug counter)
             then am_loop base_slug t1 (tl env) now (am_rollback t1 a1) (Suc counter)
             else if am_get_by_serial t1 (am_serial_number (am_rollback t1 a1)) \<noteq> None
             then Inl ValueError
             else Inl e)"
  by pat_completeness auto
termination
proof (relation "measures [\<lambda>(b, t, env, now, a, c). length env,
         \<lambda>(b, t, env, now, a, c). card {k. c \<le> k \<and> am_taken t (current_slug b k)}]")
  show "wf (measures [\<lambda>(b, t, env, now, a, c). length env,
         \<lambda>(b, t, env, now, a, c). card {k. c \<le> k \<and> am_taken t (current_slug b k)}])"
    by simp
next
  fix base_slug :: string and t :: "am_asset list" and env :: "am_asset list list"
    and now :: int and a :: am_asset and counter :: nat and x xa
  assume xa: "xa = am_others t now (batch env)"
    and tk: "am_taken xa (current_slug base_slug counter)"
  show "((base_slug, xa, tl env, now, am_rollback xa x, Suc counter),
          (base_slug, t, env, now, a, counter))
      \<in> measures [\<lambda>(b, t, env, now, a, c). length env,
         \<lambda>(b, t, env, now, a, c). card {k. c \<le> k \<and> am_taken t (current_slug b k)}]"
  proof (cases env)
    case Nil
    then have same: "xa = t" using xa by (simp add: batch_def am_others_def)
    have "card {k. Suc counter \<le> k \<and> am_taken t (current_slug base_slug k)}
            + (if am_taken t (current_slug base_slug counter) then 1 else 0)
          = card {k. counter \<le> k \<and> am_taken t (current_slug base_slug k)}"
      by (rule card_from_Suc) (rule finite_current_taken)
    with tk same Nil show ?thesis by simp
  next
    case (Cons b bs)
    then show ?thesis by simp
  qed
qed

declare am_loop.simps [simp del]

text \<open>
  \<open>Asset.save\<close>; \<open>slugify\<close> is the function of the package \<open>python_slugify\<close>, which is not part
  of the repository.
\<close>

definition am_save ::
  "(string \<Rightarrow> string) \<Rightarrow> am_asset list \<Rightarrow> am_asset list list \<Rightarrow> int \<Rightarrow> am_asset
     \<Rightarrow> error + am_asset list \<times> am_asset" where
  "am_save slugify t env now a = am_loop (slugify (am_name a)) t env now a 0"

section \<open>Properties of the slug generator\<close>

subsection \<open>anuncio\<close>


lemma an_probe_free: "\<not> an_taken t (an_probe t b s c)"
  by (induction t b s c rule: an_probe.induct) (subst an_probe.simps, simp)

lemma an_probe_untaken: "\<not> an_taken t s \<Longrightarrow> an_probe t b s c = s"
  by (subst an_probe.simps) simp

lemma an_probe_taken:
  "an_taken t s \<Longrightarrow>
     \<exists>k\<ge>c. an_probe t b s c = suffixed b k
          \<and> (\<forall>j. c \<le> j \<and> j < k \<longrightarrow> an_taken t (suffixed b j))"
proof (induction t b s c rule: an_probe.induct)
  case (1 t b s c)
  from "1.prems" have step: "an_probe t b s c = an_probe t b (suffixed b c) (Suc c)"
    by (subst an_probe.simps) simp
  show ?case
  proof (cases "an_taken t (suffixed b c)")
    case True
    from "1.IH"[OF "1.prems" True] obtain k where k: "Suc c \<le> k"
      "an_probe t b (suffixed b c) (Suc c) = suffixed b k"
      "\<forall>j. Suc c \<le> j \<and> j < k \<longrightarrow> an_taken t (suffixed b j)"
      by blast
    have "\<forall>j. c \<le> j \<and> j < k \<longrightarrow> an_taken t (suffixed b j)"
    proof (intro allI impI)
      fix j assume j: "c \<le> j \<and> j < k"
      show "an_taken t (suffixed b j)"
      proof (cases "j = c")
        case True
        with \<open>an_taken t (suffixed b c)\<close> show ?thesis by simp
      next
        case False
        with j have "Suc c \<le> j \<and> j < k" by simp
        with k(3) show ?thesis by blast
      qed
    qed
    with k(1,2) step show ?thesis by (intro exI[of _ k]) simp
  next
    case False
    then have "an_probe t b (suffixed b c) (Suc c) = suffixed b c"
      by (rule an_probe_untaken)
    with step show ?thesis by (intro exI[of _ c]) auto
  qed
qed

lemma generate_unique_slug_free: "\<not> an_taken t (generate_unique_slug t name)"
  by (simp add: generate_unique_slug_def Let_def an_probe_free)

lemma generate_unique_slug_base:
  "\<not> an_taken t (simple_slugify name) \<Longrightarrow> generate_unique_slug t name = simple_slugify name"
  by (simp add: generate_unique_slug_def Let_def an_probe_untaken)

lemma generate_unique_slug_suffix:
  assumes "an_taken t (simple_slugify name)"
  shows "\<exists>k\<ge>1. generate_unique_slug t name = suffixed (simple_slugify name) k
           \<and> \<not> an_taken t (suffixed (simple_slugify name) k)
           \<and> (\<forall>j. 1 \<le> j \<and> j < k \<longrightarrow> an_taken t (suffixed (simple_slugify name) j))"
proof -
  from an_probe_taken[OF assms, of 1 "simple_slugify name"]
  obtain k where k: "1 \<le> k"
    "an_probe t (simple_slugify name) (simple_slugify name) 1 = suffixed (simple_slugify name) k"
    "\<forall>j. 1 \<le> j \<and> j < k \<longrightarrow> an_taken t (suffixed (simple_slugify name) j)"
    by blast
  from k(2) have g: "generate_unique_slug t name = suffixed (simple_slugify name) k"
    by (simp add: generate_unique_slug_def Let_def)
  with generate_unique_slug_free[of t name] k(1,3) show ?thesis by auto
qed

lemma an_others_Nil: "an_others t now [] = t"
  by (simp add: an_others_def)

lemma an_commit_insert:
  assumes "an_id a = None" and "an_slug a = Some s" and "\<not> an_taken t s"
  shows "\<exists>a'. an_commit t now a = Inr (t @ [a'], a') \<and> an_slug a' = Some s
            \<and> an_name a' = an_name a \<and> an_id a' = Some (an_new_id t)"
  using assms by (simp add: an_commit_def an_taken_def Let_def)

text \<open>An object as the route builds it: no primary key, no slug yet.\<close>

definition an_fresh :: "an_asset \<Rightarrow> bool" where
  "an_fresh a = (an_id a = None \<and> an_slug a = None)"

lemma an_save_fresh:
  assumes "an_fresh a"
  shows "\<exists>a'. an_save t [] now a = Inr (t @ [a'], a')
            \<and> an_slug a' = Some (generate_unique_slug t (an_name a))"
proof -
  let ?a1 = "a\<lparr>an_slug := Some (generate_unique_slug t (an_name a))\<rparr>"
  from assms have "an_id ?a1 = None" by (simp add: an_fresh_def)
  from an_commit_insert[OF this _ generate_unique_slug_free, of _ "an_name a" now]
  obtain a' where "an_commit t now ?a1 = Inr (t @ [a'], a')"
    "an_slug a' = Some (generate_unique_slug t (an_name a))" by auto
  with assms show ?thesis
    by (simp add: an_save_def an_fresh_def truthy_def batch_def an_others_Nil Let_def)
qed

lemma an_taken_append: "an_taken (t @ [a]) s \<longleftrightarrow> an_taken t s \<or> an_slug a = Some s"
  by (auto simp: an_taken_iff)

lemma an_sequential:
  assumes f1: "an_fresh a1" and f2: "an_fresh a2" and nm: "an_name a1 = an_name a2"
    and s1: "an_save t [] now1 a1 = Inr (t1, a1')"
    and s2: "an_save t1 [] now2 a2 = Inr (t2, a2')"
  shows "an_slug a1' \<noteq> an_slug a2'
       \<and> (\<exists>k\<ge>1. an_slug a2' = Some (suffixed (simple_slugify (an_name a2)) k))
       \<and> a1' \<in> set t2 \<and> a2' \<in> set t2"
proof -
  from an_save_fresh[OF f1, of t now1] s1
  have t1: "t1 = t @ [a1']" and g1: "an_slug a1' = Some (generate_unique_slug t (an_name a1))"
    by auto
  from an_save_fresh[OF f2, of t1 now2] s2
  have t2: "t2 = t1 @ [a2']" and g2: "an_slug a2' = Some (generate_unique_slug t1 (an_name a2))"
    by auto
  have free2: "\<not> an_taken t1 (generate_unique_slug t1 (an_name a2))"
    by (rule generate_unique_slug_free)
  have tk1: "an_taken t1 (generate_unique_slug t (an_name a1))"
    using t1 g1 by (simp add: an_taken_append)
  from free2 tk1 g1 g2 have diff: "an_slug a1' \<noteq> an_slug a2'" by auto
  have base: "an_taken t1 (simple_slugify (an_name a2))"
  proof (cases "an_taken t (simple_slugify (an_name a1))")
    case True
    with t1 nm show ?thesis by (simp add: an_taken_append)
  next
    case False
    then have "generate_unique_slug t (an_name a1) = simple_slugify (an_name a1)"
      by (rule generate_unique_slug_base)
    with tk1 nm show ?thesis by simp
  qed
  from generate_unique_slug_suffix[OF base] g2
  have "\<exists>k\<ge>1. an_slug a2' = Some (suffixed (simple_slugify (an_name a2)) k)" by auto
  with diff t1 t2 show ?thesis by simp
qed

subsection \<open>asset\_manager\<close>


lemma am_others_Nil: "am_others t now [] = t"
  by (simp add: am_others_def)

lemma am_rollback_new: "am_id a = None \<Longrightarrow> am_rollback t a = a"
  by (simp add: am_rollback_def)

lemma am_commit_new_Inr:
  assumes "am_id a = None" and "am_commit t now a = Inr (t', a')"
  shows "t' = t @ [a'] \<and> am_slug a' = am_slug a \<and> am_name a' = am_name a
       \<and> (\<forall>s. am_slug a = Some s \<longrightarrow> \<not> am_taken t s)"
  using assms
  by (auto simp: am_commit_def am_taken_def Let_def split: option.splits if_splits)

lemma am_loop_new:
  "am_id a = None \<Longrightarrow> am_loop b t [] now a c = Inr (t', a') \<Longrightarrow>
     \<exists>k\<ge>c. am_slug a' = Some (current_slug b k) \<and> t' = t @ [a']
          \<and> \<not> am_taken t (current_slug b k)
          \<and> (\<forall>j. c \<le> j \<and> j < k \<longrightarrow> am_taken t (current_slug b j))"
proof (induction b t "[] :: am_asset list list" now a c rule: am_loop.induct)
  case (1 b t now a c)
  let ?a1 = "a\<lparr>am_slug := Some (current_slug b c)\<rparr>"
  have id1: "am_id ?a1 = None" using "1.prems"(1) by simp
  show ?case
  proof (cases "am_commit t now ?a1")
    case (Inr r)
    with "1.prems"(2) have r: "am_commit t now ?a1 = Inr (t', a')"
      by (subst (asm) am_loop.simps) (simp add: batch_def am_others_Nil Let_def)
    from am_commit_new_Inr[OF id1 r] show ?thesis
      by (intro exI[of _ c]) auto
  next
    case (Inl e)
    show ?thesis
    proof (cases "am_taken t (current_slug b c)")
      case True
      with Inl "1.prems"(2) id1
      have rec: "am_loop b t [] now ?a1 (Suc c) = Inr (t', a')"
        by (subst (asm) am_loop.simps)
           (simp add: batch_def am_others_Nil Let_def am_rollback_new)
      have "\<exists>k\<ge>Suc c. am_slug a' = Some (current_slug b k) \<and> t' = t @ [a']
          \<and> \<not> am_taken t (current_slug b k)
          \<and> (\<forall>j. Suc c \<le> j \<and> j < k \<longrightarrow> am_taken t (current_slug b j))"
        using "1.hyps"[of ?a1 t e] Inl True id1 rec
        by (simp add: batch_def am_others_Nil am_rollback_new)
      then obtain k where k: "Suc c \<le> k" "am_slug a' = Some (current_slug b k)" "t' = t @ [a']"
        "\<not> am_taken t (current_slug b k)"
        "\<forall>j. Suc c \<le> j \<and> j < k \<longrightarrow> am_taken t (current_slug b j)" by blast
      have "\<forall>j. c \<le> j \<and> j < k \<longrightarrow> am_taken t (current_slug b j)"
      proof (intro allI impI)
        fix j assume j: "c \<le> j \<and> j < k"
        show "am_taken t (current_slug b j)"
        proof (cases "j = c")
          case True
          with \<open>am_taken t (current_slug b c)\<close> show ?thesis by simp
        next
          case False
          with j have "Suc c \<le> j \<and> j < k" by simp
          with k(5) show ?thesis by blast
        qed
      qed
      with k show ?thesis by (intro exI[of _ k]) simp
    next
      case False
      with Inl "1.prems"(2) have False
        by (subst (asm) am_loop.simps)
           (simp add: batch_def am_others_Nil Let_def split: if_splits)
      then show ?thesis ..
    qed
  qed
qed

lemma am_taken_append: "am_taken (t @ [a]) s \<longleftrightarrow> am_taken t s \<or> am_slug a = Some s"
  by (auto simp: am_taken_iff)

lemma am_save_new:
  assumes "am_id a = None" and "am_save sl t [] now a = Inr (t', a')"
  shows "\<exists>k. am_slug a' = Some (current_slug (sl (am_name a)) k) \<and> t' = t @ [a']
          \<and> \<not> am_taken t (current_slug (sl (am_name a)) k)
          \<and> (\<forall>j. j < k \<longrightarrow> am_taken t (current_slug (sl (am_name a)) j))"
  using am_loop_new[OF assms(1), of "sl (am_name a)" t now 0 t' a'] assms(2)
  by (auto simp: am_save_def)

lemma am_save_new_suffix:
  assumes "am_id a = None" and "am_save sl t [] now a = Inr (t', a')"
    and "am_taken t (sl (am_name a))"
  shows "\<exists>k\<ge>1. am_slug a' = Some (suffixed (sl (am_name a)) k) \<and> t' = t @ [a']
          \<and> \<not> am_taken t (suffixed (sl (am_name a)) k)
          \<and> (\<forall>j. 1 \<le> j \<and> j < k \<longrightarrow> am_taken t (suffixed (sl (am_name a)) j))"
proof -
  let ?b = "sl (am_name a)"
  from am_save_new[OF assms(1,2)] obtain k where
    k: "am_slug a' = Some (current_slug ?b k)" "t' = t @ [a']"
       "\<not> am_taken t (current_slug ?b k)" "\<forall>j. j < k \<longrightarrow> am_taken t (current_slug ?b j)"
    by blast
  have "k \<noteq> 0" using k(3) assms(3) by (cases "k = 0") (simp_all add: current_slug_def)
  then have k1: "1 \<le> k" by simp
  have "\<forall>j. 1 \<le> j \<and> j < k \<longrightarrow> am_taken t (suffixed ?b j)"
  proof (intro allI impI)
    fix j assume j: "1 \<le> j \<and> j < k"
    with k(4) have "am_taken t (current_slug ?b j)" by blast
    with j show "am_taken t (suffixed ?b j)" by (simp add: current_slug_def)
  qed
  with k k1 show ?thesis by (intro exI[of _ k]) (simp add: current_slug_def)
qed

lemma am_sequential:
  assumes f1: "am_id a1 = None" and f2: "am_id a2 = None" and nm: "am_name a1 = am_name a2"
    and s1: "am_save sl t [] now1 a1 = Inr (t1, a1')"
    and s2: "am_save sl t1 [] now2 a2 = Inr (t2, a2')"
  shows "am_slug a1' \<noteq> am_slug a2'
       \<and> (\<exists>k\<ge>1. am_slug a2' = Some (suffixed (sl (am_name a2)) k))
       \<and> a1' \<in> set t2 \<and> a2' \<in> set t2"
proof -
  let ?b = "sl (am_name a2)"
  from am_save_new[OF f1 s1] nm obtain k1 where
    k1: "am_slug a1' = Some (current_slug ?b k1)" "t1 = t @ [a1']"
        "\<forall>j. j < k1 \<longrightarrow> am_taken t (current_slug ?b j)"
    by auto
  have base: "am_taken t1 ?b"
  proof (cases "k1 = 0")
    case True
    with k1(1,2) show ?thesis by (simp add: am_taken_append current_slug_def)
  next
    case False
    with k1(3) have "am_taken t (current_slug ?b 0)" by simp
    with k1(2) show ?thesis by (simp add: am_taken_append current_slug_def)
  qed
  from am_save_new_suffix[OF f2 s2 base] obtain k where
    k: "1 \<le> k" "am_slug a2' = Some (suffixed ?b k)" "t2 = t1 @ [a2']"
       "\<not> am_taken t1 (suffixed ?b k)"
    by blast
  have "am_taken t1 (current_slug ?b k1)" using k1(1,2) by (simp add: am_taken_append)
  with k(2,4) k1(1) have "am_slug a1' \<noteq> am_slug a2'" by auto
  with k k1(2) show ?thesis by auto
qed

text \<open>Without other writers the loop ends in \<open>return True\<close> when the serial number is new.\<close>

lemma am_commit_new_Inl:
  assumes "am_id a = None" and "am_slug a = Some s" and "am_commit t now a = Inl e"
    and "am_get_by_serial t (am_serial_number a) = None"
  shows "am_taken t s"
  using assms by (auto simp: am_commit_def am_taken_def Let_def split: if_splits)

lemma am_loop_returns:
  "am_id a = None \<Longrightarrow> am_get_by_serial t (am_serial_number a) = None \<Longrightarrow>
     \<exists>r. am_loop b t [] now a c = Inr r"
proof (induction b t "[] :: am_asset list list" now a c rule: am_loop.induct)
  case (1 b t now a c)
  let ?a1 = "a\<lparr>am_slug := Some (current_slug b c)\<rparr>"
  have id1: "am_id ?a1 = None" using "1.prems"(1) by simp
  have ser: "am_get_by_serial t (am_serial_number ?a1) = None" using "1.prems"(2) by simp
  show ?case
  proof (cases "am_commit t now ?a1")
    case (Inr r)
    then show ?thesis
      by (subst am_loop.simps) (simp add: batch_def am_others_Nil Let_def)
  next
    case (Inl e)
    have tk: "am_taken t (current_slug b c)"
      by (rule am_commit_new_Inl[OF id1 _ Inl ser]) simp
    have "\<exists>r. am_loop b t [] now ?a1 (Suc c) = Inr r"
      using "1.hyps"[of ?a1 t e] Inl tk id1 ser
      by (simp add: batch_def am_others_Nil am_rollback_new)
    with Inl tk id1 show ?thesis
      by (subst am_loop.simps) (simp add: batch_def am_others_Nil Let_def am_rollback_new)
  qed
qed

section \<open>The unique index on the slug\<close>

text \<open>
  A table is well formed when no two rows share a slug or a primary key and every row has
  both. Every \<open>commit\<close> keeps a table well formed, whoever writes, so both \<open>save\<close> methods do:
  whatever the other writers do, no two stored assets share a slug.
\<close>

definition an_wf :: "an_asset list \<Rightarrow> bool" where
  "an_wf t = (distinct (map an_slug t) \<and> distinct (map an_id t)
              \<and> list_all (\<lambda>r. an_id r \<noteq> None \<and> an_slug r \<noteq> None) t)"

lemma fold_max_ge: "x \<in> set xs \<Longrightarrow> x \<le> fold max xs (m::nat)"
proof -
  assume "x \<in> set xs"
  then have "x \<le> Max (set (m # xs))" by (intro Max_ge) simp_all
  then show ?thesis by (simp only: Max.set_eq_fold)
qed

lemma an_ids_mem: "r \<in> set t \<Longrightarrow> an_id r = Some i \<Longrightarrow> i \<in> set (an_ids t)"
  by (force simp: an_ids_def)

lemma an_new_id_fresh: "r \<in> set t \<Longrightarrow> an_id r \<noteq> Some (an_new_id t)"
proof
  assume r: "r \<in> set t" and eq: "an_id r = Some (an_new_id t)"
  then have "an_new_id t \<in> set (an_ids t)" by (rule an_ids_mem)
  then have "an_new_id t \<le> fold max (an_ids t) 0" by (rule fold_max_ge)
  then show False by (simp add: an_new_id_def)
qed

lemma an_commit_wf:
  assumes wf: "an_wf t" and c: "an_commit t now a = Inr (t', a')"
  shows "an_wf t'"
proof -
  from c obtain s where s: "an_slug a = Some s"
    by (cases "an_slug a") (simp_all add: an_commit_def)
  show ?thesis
  proof (cases "an_id a")
    case None
    with c s have free: "\<not> an_taken t s"
      and t': "t' = t @ [a']"
      and a': "an_id a' = Some (an_new_id t)" "an_slug a' = Some s"
      by (auto simp: an_commit_def an_taken_def Let_def split: if_splits)
    from free have "Some s \<notin> set (map an_slug t)" by (simp add: an_taken_iff)
    moreover have "Some (an_new_id t) \<notin> set (map an_id t)"
    proof
      assume "Some (an_new_id t) \<in> set (map an_id t)"
      then obtain x where "x \<in> set t" "an_id x = Some (an_new_id t)" by auto
      with an_new_id_fresh[of x t] show False by simp
    qed
    ultimately show ?thesis using wf t' a' by (simp add: an_wf_def)
  next
    case (Some i)
    let ?f = "\<lambda>r. if an_id r = Some i then a else r"
    from c s Some have noc: "\<forall>r \<in> set t. an_id r \<noteq> Some i \<longrightarrow> an_slug r \<noteq> Some s"
      and t': "t' = map ?f t"
      by (auto simp: an_commit_def split: if_splits)
    have ids: "map an_id (map ?f t) = map an_id t" using Some by (induction t) auto
    from wf have inj_id: "inj_on an_id (set t)" and inj_slug: "inj_on an_slug (set t)"
      and dt: "distinct t"
      by (auto simp: an_wf_def distinct_map)
    have "inj_on (\<lambda>r. an_slug (?f r)) (set t)"
    proof (rule inj_onI)
      fix x y assume x: "x \<in> set t" and y: "y \<in> set t"
        and eq: "an_slug (?f x) = an_slug (?f y)"
      show "x = y"
      proof (cases "an_id x = Some i")
        case xi: True
        show ?thesis
        proof (cases "an_id y = Some i")
          case True
          with xi have e: "an_id x = an_id y" by simp
          from inj_id e x y show ?thesis by (rule inj_onD)
        next
          case False
          with xi eq s noc y show ?thesis by auto
        qed
      next
        case xi: False
        show ?thesis
        proof (cases "an_id y = Some i")
          case True
          with xi eq s noc x show ?thesis by auto
        next
          case False
          with xi eq have e: "an_slug x = an_slug y" by simp
          from inj_slug e x y show ?thesis by (rule inj_onD)
        qed
      qed
    qed
    with dt have "distinct (map an_slug (map ?f t))" by (simp add: distinct_map comp_def)
    moreover from wf have "distinct (map an_id (map ?f t))"
      unfolding ids by (simp add: an_wf_def)
    moreover from wf s Some
    have "list_all (\<lambda>r. an_id r \<noteq> None \<and> an_slug r \<noteq> None) (map ?f t)"
      by (auto simp: an_wf_def list_all_iff)
    ultimately show ?thesis using t' by (simp add: an_wf_def)
  qed
qed

lemma an_others_wf: "an_wf t \<Longrightarrow> an_wf (an_others t now rows)"
proof (induction rows arbitrary: t)
  case Nil
  then show ?case by (simp add: an_others_def)
next
  case (Cons r rows)
  show ?case
  proof (cases "an_commit t now r")
    case (Inl e)
    with Cons show ?thesis by (simp add: an_others_def)
  next
    case (Inr p)
    obtain t1 r1 where p: "p = (t1, r1)" by (cases p)
    with Inr Cons.prems have "an_wf t1" by (auto intro: an_commit_wf)
    then have "an_wf (an_others t1 now rows)" by (rule Cons.IH)
    with Inr p show ?thesis by (simp add: an_others_def)
  qed
qed

lemma an_save_wf:
  assumes "an_wf t" and "an_save t env now a = Inr (t', a')"
  shows "an_wf t'"
proof -
  let ?a1 = "if \<not> truthy (an_slug a)
             then a\<lparr>an_slug := Some (generate_unique_slug t (an_name a))\<rparr> else a"
  let ?t1 = "an_others t now (batch env)"
  have w1: "an_wf ?t1" using assms(1) by (rule an_others_wf)
  show ?thesis
  proof (cases "an_commit ?t1 now ?a1")
    case (Inr r)
    with assms(2) have "an_commit ?t1 now ?a1 = Inr (t', a')"
      by (simp add: an_save_def Let_def)
    with w1 show ?thesis by (rule an_commit_wf)
  next
    case (Inl e)
    let ?a2 = "an_rollback ?t1 ?a1"
    let ?a3 = "?a2\<lparr>an_slug := Some (generate_unique_slug ?t1 (an_name ?a2))\<rparr>"
    let ?t2 = "an_others ?t1 now (batch (tl env))"
    from Inl assms(2) have "an_commit ?t2 now ?a3 = Inr (t', a')"
      by (simp add: an_save_def Let_def)
    moreover have "an_wf ?t2" using w1 by (rule an_others_wf)
    ultimately show ?thesis by (rule an_commit_wf[rotated])
  qed
qed

text \<open>
  anuncio's \<open>save\<close> of an asset that is stored and has a non-empty slug keeps the slug,
  whatever else of the asset was changed.
\<close>

lemma an_save_keeps_slug:
  assumes wf: "an_wf t" and st: "r \<in> set t"
    and same: "an_id a = an_id r" "an_slug a = an_slug r" and tr: "truthy (an_slug a)"
  shows "\<exists>t'. an_save t [] now a = Inr (t', a)"
proof -
  from tr obtain s where s: "an_slug a = Some s" by (cases "an_slug a") (simp_all add: truthy_def)
  from wf st same obtain i where i: "an_id a = Some i"
    by (cases "an_id a") (auto simp: an_wf_def list_all_iff)
  from wf have inj_slug: "inj_on an_slug (set t)" by (auto simp: an_wf_def distinct_map)
  have "\<not> (\<exists>x \<in> set t. an_id x \<noteq> Some i \<and> an_slug x = Some s)"
  proof
    assume "\<exists>x \<in> set t. an_id x \<noteq> Some i \<and> an_slug x = Some s"
    then obtain x where x: "x \<in> set t" "an_id x \<noteq> Some i" "an_slug x = Some s" by blast
    with st same s have e: "an_slug x = an_slug r" by simp
    from inj_slug e x(1) st have "x = r" by (rule inj_onD)
    with x(2) same i show False by simp
  qed
  then have "an_commit t now a = Inr (map (\<lambda>x. if an_id x = Some i then a else x) t, a)"
    using s i by (simp add: an_commit_def)
  with tr show ?thesis by (simp add: an_save_def an_others_Nil batch_def Let_def)
qed

definition am_wf :: "am_asset list \<Rightarrow> bool" where
  "am_wf t = (distinct (map am_slug t) \<and> distinct (map am_id t)
              \<and> list_all (\<lambda>r. am_id r \<noteq> None \<and> am_slug r \<noteq> None) t)"

lemma am_ids_mem: "r \<in> set t \<Longrightarrow> am_id r = Some i \<Longrightarrow> i \<in> set (am_ids t)"
  by (force simp: am_ids_def)

lemma am_new_id_fresh: "r \<in> set t \<Longrightarrow> am_id r \<noteq> Some (am_new_id t)"
proof
  assume r: "r \<in> set t" and eq: "am_id r = Some (am_new_id t)"
  then have "am_new_id t \<in> set (am_ids t)" by (rule am_ids_mem)
  then have "am_new_id t \<le> fold max (am_ids t) 0" by (rule fold_max_ge)
  then show False by (simp add: am_new_id_def)
qed

lemma am_commit_wf:
  assumes wf: "am_wf t" and c: "am_commit t now a = Inr (t', a')"
  shows "am_wf t'"
proof -
  from c obtain s where s: "am_slug a = Some s"
    by (cases "am_slug a") (simp_all add: am_commit_def)
  show ?thesis
  proof (cases "am_id a")
    case None
    with c s have free: "\<not> am_taken t s"
      and t': "t' = t @ [a']"
      and a': "am_id a' = Some (am_new_id t)" "am_slug a' = Some s"
      by (auto simp: am_commit_def am_taken_def Let_def split: if_splits)
    from free have "Some s \<notin> set (map am_slug t)" by (simp add: am_taken_iff)
    moreover have "Some (am_new_id t) \<notin> set (map am_id t)"
    proof
      assume "Some (am_new_id t) \<in> set (map am_id t)"
      then obtain x where "x \<in> set t" "am_id x = Some (am_new_id t)" by auto
      with am_new_id_fresh[of x t] show False by simp
    qed
    ultimately show ?thesis using wf t' a' by (simp add: am_wf_def)
  next
    case (Some i)
    let ?f = "\<lambda>r. if am_id r = Some i then a else r"
    from c s Some have noc: "\<forall>r \<in> set t. am_id r \<noteq> Some i \<longrightarrow> am_slug r \<noteq> Some s"
      and t': "t' = map ?f t"
      by (auto simp: am_commit_def split: if_splits)
    have ids: "map am_id (map ?f t) = map am_id t" using Some by (induction t) auto
    from wf have inj_id: "inj_on am_id (set t)" and inj_slug: "inj_on am_slug (set t)"
      and dt: "distinct t"
      by (auto simp: am_wf_def distinct_map)
    have "inj_on (\<lambda>r. am_slug (?f r)) (set t)"
    proof (rule inj_onI)
      fix x y assume x: "x \<in> set t" and y: "y \<in> set t"
        and eq: "am_slug (?f x) = am_slug (?f y)"
      show "x = y"
      proof (cases "am_id x = Some i")
        case xi: True
        show ?thesis
        proof (cases "am_id y = Some i")
          case True
          with xi have e: "am_id x = am_id y" by simp
          from inj_id e x y show ?thesis by (rule inj_onD)
        next
          case False
          with xi eq s noc y show ?thesis by auto
        qed
      next
        case xi: False
        show ?thesis
        proof (cases "am_id y = Some i")
          case True
          with xi eq s noc x show ?thesis by auto
        next
          case False
          with xi eq have e: "am_slug x = am_slug y" by simp
          from inj_slug e x y show ?thesis by (rule inj_onD)
        qed
      qed
    qed
    with dt have "distinct (map am_slug (map ?f t))" by (simp add: distinct_map comp_def)
    moreover from wf have "distinct (map am_id (map ?f t))"
      unfolding ids by (simp add: am_wf_def)
    moreover from wf s Some
    have "list_all (\<lambda>r. am_id r \<noteq> None \<and> am_slug r \<noteq> None) (map ?f t)"
      by (auto simp: am_wf_def list_all_iff)
    ultimately show ?thesis using t' by (simp add: am_wf_def)
  qed
qed

lemma am_others_wf: "am_wf t \<Longrightarrow> am_wf (am_others t now rows)"
proof (induction rows arbitrary: t)
  case Nil
  then show ?case by (simp add: am_others_def)
next
  case (Cons r rows)
  show ?case
  proof (cases "am_commit t now r")
    case (Inl e)
    with Cons show ?thesis by (simp add: am_others_def)
  next
    case (Inr p)
    obtain t1 r1 where p: "p = (t1, r1)" by (cases p)
    with Inr Cons.prems have "am_wf t1" by (auto intro: am_commit_wf)
    then have "am_wf (am_others t1 now rows)" by (rule Cons.IH)
    with Inr p show ?thesis by (simp add: am_others_def)
  qed
qed


lemma am_loop_wf:
  "am_wf t \<Longrightarrow> am_loop b t env now a c = Inr (t', a') \<Longrightarrow> am_wf t'"
proof (induction b t env now a c rule: am_loop.induct)
  case (1 b t env now a c)
  let ?a1 = "a\<lparr>am_slug := Some (current_slug b c)\<rparr>"
  let ?t1 = "am_others t now (batch env)"
  have w1: "am_wf ?t1" using "1.prems"(1) by (rule am_others_wf)
  show ?case
  proof (cases "am_commit ?t1 now ?a1")
    case (Inr r)
    with "1.prems"(2) have "am_commit ?t1 now ?a1 = Inr (t', a')"
      by (subst (asm) am_loop.simps) (simp add: Let_def)
    with w1 show ?thesis by (rule am_commit_wf)
  next
    case (Inl e)
    show ?thesis
    proof (cases "am_taken ?t1 (current_slug b c)")
      case True
      with Inl "1.prems"(2)
      have rec: "am_loop b ?t1 (tl env) now (am_rollback ?t1 ?a1) (Suc c) = Inr (t', a')"
        by (subst (asm) am_loop.simps) (simp add: Let_def)
      show ?thesis
        using "1.IH"[of ?a1 ?t1 e] Inl True w1 rec by simp
    next
      case False
      with Inl "1.prems"(2) have False
        by (subst (asm) am_loop.simps) (simp add: Let_def split: if_splits)
      then show ?thesis ..
    qed
  qed
qed

lemma am_save_wf: "am_wf t \<Longrightarrow> am_save sl t env now a = Inr (t', a') \<Longrightarrow> am_wf t'"
  unfolding am_save_def by (rule am_loop_wf)

text \<open>
  asset\_manager's loop goes on as long as the slug it tried is taken, whatever the other
  writers commit: for a new asset it ends in \<open>return True\<close> or in the \<open>ValueError\<close> of a
  serial number that is stored already, never in an \<open>IntegrityError\<close>.
\<close>

lemma am_commit_new_conflict:
  assumes "am_id a = None" and "am_slug a = Some s" and "am_commit t now a = Inl e"
  shows "am_taken t s \<or> am_get_by_serial t (am_serial_number a) \<noteq> None"
  using assms by (auto simp: am_commit_def am_taken_def Let_def split: if_splits)

lemma am_loop_new_no_IntegrityError:
  "am_id a = None \<Longrightarrow> am_loop b t env now a c \<noteq> Inl IntegrityError"
proof (induction b t env now a c rule: am_loop.induct)
  case (1 b t env now a c)
  let ?a1 = "a\<lparr>am_slug := Some (current_slug b c)\<rparr>"
  let ?t1 = "am_others t now (batch env)"
  have id1: "am_id ?a1 = None" using "1.prems" by simp
  show ?case
  proof (cases "am_commit ?t1 now ?a1")
    case (Inr r)
    then show ?thesis by (subst am_loop.simps) (simp add: Let_def)
  next
    case (Inl e)
    show ?thesis
    proof (cases "am_taken ?t1 (current_slug b c)")
      case True
      have "am_loop b ?t1 (tl env) now (am_rollback ?t1 ?a1) (Suc c) \<noteq> Inl IntegrityError"
        using "1.IH"[of ?a1 ?t1 e] Inl True id1 by (simp add: am_rollback_new)
      with Inl True show ?thesis by (subst am_loop.simps) (simp add: Let_def)
    next
      case False
      from am_commit_new_conflict[OF id1 _ Inl] False
      have "am_get_by_serial ?t1 (am_serial_number ?a1) \<noteq> None" by simp
      with Inl False id1 show ?thesis
        by (subst am_loop.simps) (simp add: Let_def am_rollback_new)
    qed
  qed
qed

section \<open>Example data\<close>

text \<open>
  Modelled from the spec: the function \<open>slugify\<close> that \<open>asset_manager/models.py\<close> imports from
  the package \<open>python_slugify\<close> is not under \<open>src/\<close>. The spec's contract of the identifier
  generator is: a lowercase identifier of ASCII letters, digits and hyphens, white space and
  punctuation collapsed to single hyphens, no leading or trailing hyphen. Every maximal run
  of characters other than \<open>a-z\<close> and \<open>0-9\<close> becomes one hyphen here. The general results
  below hold for every function in its place; this one closes the examples.
\<close>

definition slug_char :: "char \<Rightarrow> bool" where
  "slug_char c = (let n = code c in (48 \<le> n \<and> n \<le> 57) \<or> (97 \<le> n \<and> n \<le> 122))"

function hyphenate :: "string \<Rightarrow> string" where
  "hyphenate [] = []"
| "hyphenate (c # cs) =
     (if slug_char c then c # hyphenate cs
      else CHR ''-'' # hyphenate (dropWhile (\<lambda>d. \<not> slug_char d) cs))"
  by pat_completeness auto
termination
  by (relation "measure length") (auto simp: length_dropWhile_le less_Suc_eq_le)

definition slugify :: "string \<Rightarrow> string" where
  "slugify text = strip_char (CHR ''-'') (hyphenate (lower text))"

text \<open>
  The objects the routes build: \<open>models.Asset(user_id=..., name=..., description=...,
  value=...)\<close> in anuncio and \<open>models.Asset(name=..., serial_number=..., description=...,
  user_id=...)\<close> in asset\_manager. The other columns are unset.
\<close>

definition an_Asset :: "nat \<Rightarrow> string \<Rightarrow> string \<Rightarrow> int \<Rightarrow> an_asset" where
  "an_Asset user_id name description val =
     \<lparr>an_id = None, an_user_id = user_id, an_name = name, an_description = description,
      an_value = val, an_slug = None, an_timestamp = None\<rparr>"

definition am_Asset :: "string \<Rightarrow> string \<Rightarrow> string \<Rightarrow> nat \<Rightarrow> am_asset" where
  "am_Asset name serial_number description user_id =
     \<lparr>am_id = None, am_user_id = user_id, am_name = name, am_serial_number = serial_number,
      am_description = description, am_slug = None, am_created_at = None\<rparr>"

text \<open>A stored row with the given primary key and slug.\<close>

definition an_stored :: "nat \<Rightarrow> string \<Rightarrow> string \<Rightarrow> int \<Rightarrow> an_asset" where
  "an_stored i name slug ts =
     (an_Asset 1 name ''-'' 0)\<lparr>an_id := Some i, an_slug := Some slug, an_timestamp := Some ts\<rparr>"

definition am_stored :: "nat \<Rightarrow> string \<Rightarrow> string \<Rightarrow> string \<Rightarrow> int \<Rightarrow> am_asset" where
  "am_stored i name serial slug ts =
     (am_Asset name serial ''-'' 1)\<lparr>am_id := Some i, am_slug := Some slug, am_created_at := Some ts\<rparr>"

section \<open>Claims about the slug generator\<close>

text \<open>
  C6. Two assets with the same display name, created one after the other with no other
  writer in between (the environment \<open>[]\<close>): both are stored, their slugs differ, and the
  slug of the second is the base slug followed by a hyphen and a number \<open>k \<ge> 1\<close>. The first
  conjunct is anuncio's \<open>Asset.save\<close>, the second asset\_manager's, for every function
  \<open>sl\<close> in the place of \<open>slugify\<close>.
\<close>

theorem sequential_equal_names:
  "(an_fresh a1 \<and> an_fresh a2 \<and> an_name a1 = an_name a2
      \<and> an_save t [] now1 a1 = Inr (t1, a1') \<and> an_save t1 [] now2 a2 = Inr (t2, a2')
    \<longrightarrow> a1' \<in> set t2 \<and> a2' \<in> set t2 \<and> an_slug a1' \<noteq> an_slug a2'
        \<and> (\<exists>k\<ge>1. an_slug a2' = Some (suffixed (simple_slugify (an_name a2)) k)))
   \<and> (am_id b1 = None \<and> am_id b2 = None \<and> am_name b1 = am_name b2
      \<and> am_save sl u [] now1 b1 = Inr (u1, b1') \<and> am_save sl u1 [] now2 b2 = Inr (u2, b2')
    \<longrightarrow> b1' \<in> set u2 \<and> b2' \<in> set u2 \<and> am_slug b1' \<noteq> am_slug b2'
        \<and> (\<exists>k\<ge>1. am_slug b2' = Some (suffixed (sl (am_name b2)) k)))"
proof (intro conjI impI)
  assume h: "an_fresh a1 \<and> an_fresh a2 \<and> an_name a1 = an_name a2
      \<and> an_save t [] now1 a1 = Inr (t1, a1') \<and> an_save t1 [] now2 a2 = Inr (t2, a2')"
  then have r: "an_slug a1' \<noteq> an_slug a2'
       \<and> (\<exists>k\<ge>1. an_slug a2' = Some (suffixed (simple_slugify (an_name a2)) k))
       \<and> a1' \<in> set t2 \<and> a2' \<in> set t2"
    by (intro an_sequential[of a1 a2 t now1 t1 a1' now2 t2 a2']) simp_all
  from r show "a1' \<in> set t2" by simp
  from r show "a2' \<in> set t2" by simp
  from r show "an_slug a1' \<noteq> an_slug a2'" by simp
  from r show "\<exists>k\<ge>1. an_slug a2' = Some (suffixed (simple_slugify (an_name a2)) k)" by simp
next
  assume h: "am_id b1 = None \<and> am_id b2 = None \<and> am_name b1 = am_name b2
      \<and> am_save sl u [] now1 b1 = Inr (u1, b1') \<and> am_save sl u1 [] now2 b2 = Inr (u2, b2')"
  then have r: "am_slug b1' \<noteq> am_slug b2'
       \<and> (\<exists>k\<ge>1. am_slug b2' = Some (suffixed (sl (am_name b2)) k))
       \<and> b1' \<in> set u2 \<and> b2' \<in> set u2"
    by (intro am_sequential[of b1 b2 sl u now1 u1 b1' now2 u2 b2']) simp_all
  from r show "b1' \<in> set u2" by simp
  from r show "b2' \<in> set u2" by simp
  from r show "am_slug b1' \<noteq> am_slug b2'" by simp
  from r show "\<exists>k\<ge>1. am_slug b2' = Some (suffixed (sl (am_name b2)) k)" by simp
qed

theorem sequential_equal_names_witness:
  "an_save [] [] 10 (an_Asset 1 ''Laptop Dell'' ''-'' 0)
     = Inr ([an_stored 1 ''Laptop Dell'' ''laptop-dell'' 10],
            an_stored 1 ''Laptop Dell'' ''laptop-dell'' 10)
   \<and> an_save [an_stored 1 ''Laptop Dell'' ''laptop-dell'' 10] [] 11
        (an_Asset 1 ''Laptop Dell'' ''-'' 0)
     = Inr ([an_stored 1 ''Laptop Dell'' ''laptop-dell'' 10,
             an_stored 2 ''Laptop Dell'' ''laptop-dell-1'' 11],
            an_stored 2 ''Laptop Dell'' ''laptop-dell-1'' 11)
   \<and> an_slug (an_stored 1 ''Laptop Dell'' ''laptop-dell'' 10)
       \<noteq> an_slug (an_stored 2 ''Laptop Dell'' ''laptop-dell-1'' 11)
   \<and> (\<exists>k\<ge>1. an_slug (an_stored 2 ''Laptop Dell'' ''laptop-dell-1'' 11)
         = Some (suffixed (simple_slugify ''Laptop Dell'') k))
   \<and> am_save slugify [] [] 10 (am_Asset ''Laptop Dell'' ''SN-1'' ''-'' 1)
     = Inr ([am_stored 1 ''Laptop Dell'' ''SN-1'' ''laptop-dell'' 10],
            am_stored 1 ''Laptop Dell'' ''SN-1'' ''laptop-dell'' 10)
   \<and> am_save slugify [am_stored 1 ''Laptop Dell'' ''SN-1'' ''laptop-dell'' 10] [] 11
        (am_Asset ''Laptop Dell'' ''SN-2'' ''-'' 1)
     = Inr ([am_stored 1 ''Laptop Dell'' ''SN-1'' ''laptop-dell'' 10,
             am_stored 2 ''Laptop Dell'' ''SN-2'' ''laptop-dell-1'' 11],
            am_stored 2 ''Laptop Dell'' ''SN-2'' ''laptop-dell-1'' 11)
   \<and> am_slug (am_stored 1 ''Laptop Dell'' ''SN-1'' ''laptop-dell'' 10)
       \<noteq> am_slug (am_stored 2 ''Laptop Dell'' ''SN-2'' ''laptop-dell-1'' 11)
   \<and> (\<exists>k\<ge>1. am_slug (am_stored 2 ''Laptop Dell'' ''SN-2'' ''laptop-dell-1'' 11)
         = Some (suffixed (slugify ''Laptop Dell'') k))"
proof -
  let ?a = "an_Asset 1 ''Laptop Dell'' ''-'' 0"
  let ?r1 = "an_stored 1 ''Laptop Dell'' ''laptop-dell'' 10"
  let ?r2 = "an_stored 2 ''Laptop Dell'' ''laptop-dell-1'' 11"
  let ?b1 = "am_Asset ''Laptop Dell'' ''SN-1'' ''-'' 1"
  let ?b2 = "am_Asset ''Laptop Dell'' ''SN-2'' ''-'' 1"
  let ?q1 = "am_stored 1 ''Laptop Dell'' ''SN-1'' ''laptop-dell'' 10"
  let ?q2 = "am_stored 2 ''Laptop Dell'' ''SN-2'' ''laptop-dell-1'' 11"
  have f: "an_fresh ?a" by (simp add: an_fresh_def an_Asset_def)
  have s1: "an_save [] [] 10 ?a = Inr ([?r1], ?r1)" by code_simp
  have s2: "an_save [?r1] [] 11 ?a = Inr ([?r1, ?r2], ?r2)" by code_simp
  have g1: "am_id ?b1 = None" and g2: "am_id ?b2 = None" and g3: "am_name ?b1 = am_name ?b2"
    by (simp_all add: am_Asset_def)
  have u1: "am_save slugify [] [] 10 ?b1 = Inr ([?q1], ?q1)" by code_simp
  have u2: "am_save slugify [?q1] [] 11 ?b2 = Inr ([?q1, ?q2], ?q2)" by code_simp
  have n: "an_name ?a = ''Laptop Dell''" and m: "am_name ?b2 = ''Laptop Dell''"
    by (simp_all add: an_Asset_def am_Asset_def)
  from sequential_equal_names[of ?a ?a "[]" 10 "[?r1]" ?r1 11 "[?r1, ?r2]" ?r2
         ?b1 ?b2 slugify "[]" "[?q1]" ?q1 "[?q1, ?q2]" ?q2]
    f s1 s2 g1 g2 g3 u1 u2 n m
  show ?thesis by simp
qed

text \<open>
  C7 (as amended). When the base slug is taken and no other writer interferes, both
  variants assign the base slug followed by a hyphen and the least counter \<open>k \<ge> 1\<close> whose
  slug is free: every smaller counter from 1 on was probed and found taken. Both variants
  start with the suffix \<open>-1\<close>; asset\_manager tries the bare base slug at counter 0 and
  never builds the suffix \<open>-0\<close>.
\<close>

theorem counter_suffix_policy:
  "(an_taken t (simple_slugify name)
    \<longrightarrow> (\<exists>k\<ge>1. generate_unique_slug t name = suffixed (simple_slugify name) k
           \<and> \<not> an_taken t (suffixed (simple_slugify name) k)
           \<and> (\<forall>j. 1 \<le> j \<and> j < k \<longrightarrow> an_taken t (suffixed (simple_slugify name) j))))
   \<and> (am_id b = None \<and> am_taken u (sl (am_name b)) \<and> am_save sl u [] now b = Inr (u', b')
    \<longrightarrow> (\<exists>k\<ge>1. am_slug b' = Some (suffixed (sl (am_name b)) k)
           \<and> \<not> am_taken u (suffixed (sl (am_name b)) k)
           \<and> (\<forall>j. 1 \<le> j \<and> j < k \<longrightarrow> am_taken u (suffixed (sl (am_name b)) j))))"
proof (intro conjI impI)
  assume "an_taken t (simple_slugify name)"
  then show "\<exists>k\<ge>1. generate_unique_slug t name = suffixed (simple_slugify name) k
           \<and> \<not> an_taken t (suffixed (simple_slugify name) k)
           \<and> (\<forall>j. 1 \<le> j \<and> j < k \<longrightarrow> an_taken t (suffixed (simple_slugify name) j))"
    by (rule generate_unique_slug_suffix)
next
  assume h: "am_id b = None \<and> am_taken u (sl (am_name b)) \<and> am_save sl u [] now b = Inr (u', b')"
  then have "\<exists>k\<ge>1. am_slug b' = Some (suffixed (sl (am_name b)) k) \<and> u' = u @ [b']
          \<and> \<not> am_taken u (suffixed (sl (am_name b)) k)
          \<and> (\<forall>j. 1 \<le> j \<and> j < k \<longrightarrow> am_taken u (suffixed (sl (am_name b)) j))"
    by (intro am_save_new_suffix[of b sl u now u' b']) simp_all
  then show "\<exists>k\<ge>1. am_slug b' = Some (suffixed (sl (am_name b)) k)
           \<and> \<not> am_taken u (suffixed (sl (am_name b)) k)
           \<and> (\<forall>j. 1 \<le> j \<and> j < k \<longrightarrow> am_taken u (suffixed (sl (am_name b)) j))"
    by blast
qed

text \<open>The policy at a table that holds the base slug \<open>laptop-dell\<close>.\<close>

theorem counter_suffix_policy_witness:
  "an_taken [an_stored 1 ''Laptop Dell'' ''laptop-dell'' 10] (simple_slugify ''Laptop Dell'')
   \<and> (\<exists>k\<ge>1. generate_unique_slug [an_stored 1 ''Laptop Dell'' ''laptop-dell'' 10] ''Laptop Dell''
              = suffixed (simple_slugify ''Laptop Dell'') k)
   \<and> am_taken [am_stored 1 ''Laptop Dell'' ''SN-1'' ''laptop-dell'' 10] (slugify ''Laptop Dell'')
   \<and> am_save slugify [am_stored 1 ''Laptop Dell'' ''SN-1'' ''laptop-dell'' 10] [] 11
        (am_Asset ''Laptop Dell'' ''SN-2'' ''-'' 1)
     = Inr ([am_stored 1 ''Laptop Dell'' ''SN-1'' ''laptop-dell'' 10,
             am_stored 2 ''Laptop Dell'' ''SN-2'' ''laptop-dell-1'' 11],
            am_stored 2 ''Laptop Dell'' ''SN-2'' ''laptop-dell-1'' 11)
   \<and> (\<exists>k\<ge>1. am_slug (am_stored 2 ''Laptop Dell'' ''SN-2'' ''laptop-dell-1'' 11)
              = Some (suffixed (slugify ''Laptop Dell'') k))"
proof -
  let ?r1 = "an_stored 1 ''Laptop Dell'' ''laptop-dell'' 10"
  let ?b2 = "am_Asset ''Laptop Dell'' ''SN-2'' ''-'' 1"
  let ?q1 = "am_stored 1 ''Laptop Dell'' ''SN-1'' ''laptop-dell'' 10"
  let ?q2 = "am_stored 2 ''Laptop Dell'' ''SN-2'' ''laptop-dell-1'' 11"
  have t1: "an_taken [?r1] (simple_slugify ''Laptop Dell'')" by code_simp
  have t2: "am_taken [?q1] (slugify ''Laptop Dell'')" by code_simp
  have g: "am_id ?b2 = None" and m: "am_name ?b2 = ''Laptop Dell''"
    by (simp_all add: am_Asset_def)
  have u2: "am_save slugify [?q1] [] 11 ?b2 = Inr ([?q1, ?q2], ?q2)" by code_simp
  from counter_suffix_policy[of "[?r1]" "''Laptop Dell''" ?b2 "[?q1]" slugify 11 "[?q1, ?q2]" ?q2]
    t1 t2 g m u2
  show ?thesis by auto
qed

text \<open>
  The claim as stated fails: in asset\_manager the asset saved after a collision of the base
  slug \<open>laptop-dell\<close> gets \<open>laptop-dell-1\<close>, not \<open>laptop-dell-0\<close>. Counter 0 is the bare base
  slug.
\<close>

theorem never_appends_zero:
  "am_save slugify [am_stored 1 ''Laptop Dell'' ''SN-1'' ''laptop-dell'' 10] [] 11
        (am_Asset ''Laptop Dell'' ''SN-2'' ''-'' 1)
     = Inr ([am_stored 1 ''Laptop Dell'' ''SN-1'' ''laptop-dell'' 10,
             am_stored 2 ''Laptop Dell'' ''SN-2'' ''laptop-dell-1'' 11],
            am_stored 2 ''Laptop Dell'' ''SN-2'' ''laptop-dell-1'' 11)
   \<and> am_slug (am_stored 2 ''Laptop Dell'' ''SN-2'' ''laptop-dell-1'' 11) = Some ''laptop-dell-1''
   \<and> am_slug (am_stored 2 ''Laptop Dell'' ''SN-2'' ''laptop-dell-1'' 11) \<noteq> Some ''laptop-dell-0''
   \<and> current_slug ''laptop-dell'' 0 = ''laptop-dell''
   \<and> current_slug ''laptop-dell'' 1 = ''laptop-dell-1''"
  by code_simp

text \<open>
  C2. anuncio's \<open>Asset.save\<close> catches the \<open>IntegrityError\<close> of its first \<open>commit\<close> only. Here
  another writer stores the slug \<open>a\<close> between the first probe and the first write, and the
  slug \<open>a-1\<close> between the second probe and the second write: the second \<open>IntegrityError\<close>
  leaves \<open>save\<close>, and nothing is retried. asset\_manager's loop does retry (lemma
  \<open>am_loop_new_no_IntegrityError\<close>), and in both variants the unique index keeps two stored
  assets from sharing a slug (lemmas \<open>an_save_wf\<close> and \<open>am_save_wf\<close>).
\<close>

theorem anuncio_second_conflict_propagates:
  "an_save [] [[an_Asset 2 ''a'' ''-'' 0\<lparr>an_slug := Some ''a''\<rparr>],
               [an_Asset 3 ''a'' ''-'' 0\<lparr>an_slug := Some ''a-1''\<rparr>]] 10
     (an_Asset 1 ''a'' ''-'' 0) = Inl IntegrityError"
  by code_simp

text \<open>
  C5. A later \<open>save\<close> can change the slug. asset\_manager's \<open>save\<close> computes the slug from the
  current name every time: the asset saved as \<open>foo\<close> and renamed to \<open>bar\<close> is stored with the
  slug \<open>bar\<close> by its next \<open>save\<close>. anuncio's \<open>save\<close> keeps a slug that is set, but its test
  \<open>if not self.slug\<close> takes the empty slug of the name \<open>!!!\<close> for an unset one: the second
  \<open>save\<close> replaces it by \<open>-1\<close>. A non-empty slug it keeps (lemma \<open>an_save_keeps_slug\<close>).
\<close>

theorem slug_changes_on_later_save:
  "am_save slugify [] [] 10 (am_Asset ''foo'' ''SN-1'' ''-'' 1)
     = Inr ([am_stored 1 ''foo'' ''SN-1'' ''foo'' 10], am_stored 1 ''foo'' ''SN-1'' ''foo'' 10)
   \<and> am_save slugify [am_stored 1 ''foo'' ''SN-1'' ''foo'' 10] [] 11
        ((am_stored 1 ''foo'' ''SN-1'' ''foo'' 10)\<lparr>am_name := ''bar''\<rparr>)
     = Inr ([am_stored 1 ''bar'' ''SN-1'' ''bar'' 10], am_stored 1 ''bar'' ''SN-1'' ''bar'' 10)
   \<and> an_save [] [] 10 (an_Asset 1 ''!!!'' ''-'' 0)
     = Inr ([an_stored 1 ''!!!'' '''' 10], an_stored 1 ''!!!'' '''' 10)
   \<and> an_save [an_stored 1 ''!!!'' '''' 10] [] 11 (an_stored 1 ''!!!'' '''' 10)
     = Inr ([an_stored 1 ''!!!'' ''-1'' 10], an_stored 1 ''!!!'' ''-1'' 10)"
  by code_simp

section \<open>Claims about the slug of a name\<close>

text \<open>
  What \<open>_simple_slugify\<close> guarantees for every name: a character of the slug is a hyphen or
  a word character that is not upper case and is the lower case of a character of the name,
  and a non-empty slug neither starts nor ends with a hyphen.
\<close>

lemma lower_char_not_upper: "\<not> py_isupper (lower_char c)"
proof (cases "py_isupper c")
  case False
  then show ?thesis by (simp add: lower_char_def)
next
  case True
  then have b: "code c + 32 < 256" by (auto simp: py_isupper_def Let_def)
  from True have "lower_char c = char_of (code c + 32)" by (simp add: lower_char_def)
  then have "code (lower_char c) = code c + 32" using b by (simp add: code_char_of)
  with True show ?thesis by (auto simp: py_isupper_def Let_def)
qed

lemma strip_char_prefix: "\<exists>ys. dropWhile (\<lambda>c. c = d) text = strip_char d text @ ys"
proof -
  let ?xs = "dropWhile (\<lambda>c. c = d) text"
  have "strip_char d text @ rev (takeWhile (\<lambda>c. c = d) (rev ?xs))
        = rev (takeWhile (\<lambda>c. c = d) (rev ?xs) @ dropWhile (\<lambda>c. c = d) (rev ?xs))"
    by (simp only: strip_char_def rev_append)
  also have "\<dots> = ?xs" by (simp only: takeWhile_dropWhile_id rev_rev_ident)
  finally have "?xs = strip_char d text @ rev (takeWhile (\<lambda>c. c = d) (rev ?xs))" by simp
  then show ?thesis ..
qed

lemma strip_char_hd: "strip_char d text \<noteq> [] \<Longrightarrow> hd (strip_char d text) \<noteq> d"
proof -
  assume ne: "strip_char d text \<noteq> []"
  from strip_char_prefix obtain ys where ys: "dropWhile (\<lambda>c. c = d) text = strip_char d text @ ys"
    by blast
  with ne have "dropWhile (\<lambda>c. c = d) text \<noteq> []" by auto
  then have "hd (dropWhile (\<lambda>c. c = d) text) \<noteq> d" by (rule hd_dropWhile)
  with ys ne show ?thesis by simp
qed

lemma strip_char_last: "strip_char d text \<noteq> [] \<Longrightarrow> last (strip_char d text) \<noteq> d"
proof -
  let ?xs = "dropWhile (\<lambda>c. c = d) text"
  assume ne: "strip_char d text \<noteq> []"
  then have n2: "dropWhile (\<lambda>c. c = d) (rev ?xs) \<noteq> []" by (simp add: strip_char_def)
  then have "hd (dropWhile (\<lambda>c. c = d) (rev ?xs)) \<noteq> d" by (rule hd_dropWhile)
  with n2 show ?thesis by (simp add: strip_char_def last_rev)
qed

lemma set_strip_char: "set (strip_char d text) \<subseteq> set text"
  by (auto simp: strip_char_def dest!: set_dropWhileD)

lemma set_sub_runs: "set (sub_runs s) \<subseteq> {c \<in> set s. \<not> sep_char c} \<union> {CHR ''-''}"
proof (induction s rule: sub_runs.induct)
  case 1
  show ?case by simp
next
  case (2 c cs)
  show ?case
  proof (cases "sep_char c")
    case True
    with 2 have "set (sub_runs (dropWhile sep_char cs))
                  \<subseteq> {c \<in> set (dropWhile sep_char cs). \<not> sep_char c} \<union> {CHR ''-''}" by simp
    moreover have "set (dropWhile sep_char cs) \<subseteq> set cs" by (auto dest: set_dropWhileD)
    ultimately show ?thesis using True by auto
  next
    case False
    with 2 show ?thesis by auto
  qed
qed

lemma simple_slugify_chars:
  assumes "c \<in> set (simple_slugify text)"
  shows "c = CHR ''-'' \<or> (py_isword c \<and> \<not> py_isupper c \<and> c \<in> lower_char ` set text)"
proof -
  from assms set_strip_char have "c \<in> set (sub_runs (sub_unwanted (lower text)))"
    unfolding simple_slugify_def by blast
  with set_sub_runs have "c = CHR ''-'' \<or> (c \<in> set (sub_unwanted (lower text)) \<and> \<not> sep_char c)"
    by blast
  then show ?thesis
  proof
    assume "c = CHR ''-''" then show ?thesis ..
  next
    assume h: "c \<in> set (sub_unwanted (lower text)) \<and> \<not> sep_char c"
    then have k: "keep_char c" and l: "c \<in> lower_char ` set text"
      by (auto simp: sub_unwanted_def lower_def)
    from k h have "py_isword c" by (auto simp: keep_char_def sep_char_def)
    moreover from l have "\<not> py_isupper c" by (auto simp: lower_char_not_upper)
    ultimately show ?thesis using l by simp
  qed
qed

lemma simple_slugify_edges:
  "simple_slugify text \<noteq> [] \<Longrightarrow>
     hd (simple_slugify text) \<noteq> CHR ''-'' \<and> last (simple_slugify text) \<noteq> CHR ''-''"
  unfolding simple_slugify_def by (simp add: strip_char_hd strip_char_last)

text \<open>
  On names of ASCII characters without an underscore the slug has the alphabet of the
  spec.
\<close>

lemma lower_char_ascii:
  assumes "code c < 128" and "c \<noteq> CHR ''_''"
  shows "code (lower_char c) < 128 \<and> lower_char c \<noteq> CHR ''_''"
proof (cases "py_isupper c")
  case False
  with assms show ?thesis by (simp add: lower_char_def)
next
  case True
  with assms have r: "65 \<le> code c \<and> code c \<le> 90" by (auto simp: py_isupper_def Let_def)
  from True have "lower_char c = char_of (code c + 32)" by (simp add: lower_char_def)
  with r have e: "code (lower_char c) = code c + 32" by (simp add: code_char_of)
  have "code (CHR ''_'') = 95" by (simp add: code_def)
  with e r show ?thesis by auto
qed

lemma code_inj: "code c = code d \<Longrightarrow> c = d"
  by (simp add: code_def)

lemma ascii_word_lower:
  assumes "py_isword c" and "\<not> py_isupper c" and "code c < 128" and "c \<noteq> CHR ''_''"
  shows "slug_char c"
proof -
  have "code c \<noteq> 95"
  proof
    assume "code c = 95"
    then have "code c = code (CHR ''_'')" by (simp add: code_def)
    then have "c = CHR ''_''" by (rule code_inj)
    with assms(4) show False by simp
  qed
  with assms(1,2,3) show ?thesis
    by (auto simp: py_isword_def py_isupper_def slug_char_def Let_def)
qed

lemma simple_slugify_ascii:
  assumes "\<forall>c \<in> set text. code c < 128 \<and> c \<noteq> CHR ''_''"
    and "c \<in> set (simple_slugify text)"
  shows "slug_char c \<or> c = CHR ''-''"
proof -
  from simple_slugify_chars[OF assms(2)]
  show ?thesis
  proof
    assume "c = CHR ''-''" then show ?thesis ..
  next
    assume h: "py_isword c \<and> \<not> py_isupper c \<and> c \<in> lower_char ` set text"
    then obtain d where d: "d \<in> set text" "c = lower_char d" by auto
    with assms(1) have "code d < 128" "d \<noteq> CHR ''_''" by auto
    from lower_char_ascii[OF this] d have "code c < 128" "c \<noteq> CHR ''_''" by auto
    with h show ?thesis by (simp add: ascii_word_lower)
  qed
qed

text \<open>
  C1. The class \<open>\w\<close> holds the underscore and the non-ASCII letters, so \<open>_simple_slugify\<close>
  keeps them: the slug of \<open>Hello_World\<close> is \<open>hello_world\<close>, the slug of \<open>Caf\<close> followed by
  U+00C9 ends in U+00E9. Neither character is in \<open>[a-z0-9-]\<close>.
\<close>

theorem slug_keeps_underscore_and_accents:
  "simple_slugify ''Hello_World'' = ''hello_world''
   \<and> \<not> slug_char (CHR ''_'')
   \<and> simple_slugify [CHR ''C'', CHR ''a'', CHR ''f'', CHR 0xC9] = [CHR ''c'', CHR ''a'', CHR ''f'', CHR 0xE9]
   \<and> \<not> slug_char (CHR 0xE9)"
  by code_simp

section \<open>The public listing\<close>

text \<open>
  \<open>select(Asset).order_by(column.desc())\<close>: the rows that the database reads, ordered by the
  relation \<open>before\<close> of the column's descending order. Rows with equal keys come out in the
  order in which they were read.
\<close>

fun insert_before :: "('a \<Rightarrow> 'a \<Rightarrow> bool) \<Rightarrow> 'a \<Rightarrow> 'a list \<Rightarrow> 'a list" where
  "insert_before before x [] = [x]"
| "insert_before before x (y # ys) =
     (if before x y then x # y # ys else y # insert_before before x ys)"

definition order_by :: "('a \<Rightarrow> 'a \<Rightarrow> bool) \<Rightarrow> 'a list \<Rightarrow> 'a list" where
  "order_by before rows = foldr (insert_before before) rows []"

text \<open>
  Descending order of a \<open>DateTime\<close> column that may be \<open>NULL\<close>: the newer value first. SQLite
  (anuncio) takes \<open>NULL\<close> for the smallest value, so it comes last; PostgreSQL
  (asset\_manager) takes it for the largest, so it comes first.
\<close>

definition desc_nulls_last :: "int option \<Rightarrow> int option \<Rightarrow> bool" where
  "desc_nulls_last x y =
     (case x of None \<Rightarrow> y = None | Some a \<Rightarrow> (case y of None \<Rightarrow> True | Some b \<Rightarrow> b \<le> a))"

definition desc_nulls_first :: "int option \<Rightarrow> int option \<Rightarrow> bool" where
  "desc_nulls_first x y =
     (case x of None \<Rightarrow> True | Some a \<Rightarrow> (case y of None \<Rightarrow> False | Some b \<Rightarrow> b \<le> a))"

definition an_newer :: "an_asset \<Rightarrow> an_asset \<Rightarrow> bool" where
  "an_newer x y = desc_nulls_last (an_timestamp x) (an_timestamp y)"

definition am_newer :: "am_asset \<Rightarrow> am_asset \<Rightarrow> bool" where
  "am_newer x y = desc_nulls_first (am_created_at x) (am_created_at y)"

text \<open>
  \<open>Asset.get_all\<close> of the two variants. The source does not fix the order of rows with equal
  creation times, and databases differ in it: \<open>scan\<close> is the order in which the database
  reads the rows of the table, some permutation of them. Every listing that is ordered by
  the column is the listing of some scan (lemma \<open>order_by_sorted\<close>).
\<close>

definition an_get_all :: "(an_asset list \<Rightarrow> an_asset list) \<Rightarrow> an_asset list \<Rightarrow> an_asset list" where
  "an_get_all scan t = order_by an_newer (scan t)"

definition am_get_all :: "(am_asset list \<Rightarrow> am_asset list) \<Rightarrow> am_asset list \<Rightarrow> am_asset list" where
  "am_get_all scan t = order_by am_newer (scan t)"

lemma mset_insert_before: "mset (insert_before before x ys) = add_mset x (mset ys)"
  by (induction ys) simp_all

lemma mset_order_by: "mset (order_by before rows) = mset rows"
  by (induction rows) (simp_all add: order_by_def mset_insert_before)

lemma set_insert_before: "set (insert_before before x ys) = insert x (set ys)"
  by (induction ys) auto

lemma sorted_insert_before:
  assumes total: "\<And>a b. before a b \<or> before b a"
    and trans: "\<And>a b c. before a b \<Longrightarrow> before b c \<Longrightarrow> before a c"
  shows "sorted_wrt before ys \<Longrightarrow> sorted_wrt before (insert_before before x ys)"
proof (induction ys)
  case Nil
  show ?case by simp
next
  case (Cons y ys)
  show ?case
  proof (cases "before x y")
    case True
    with Cons.prems have "\<forall>z \<in> set ys. before x z" by (auto intro: trans)
    with True Cons.prems show ?thesis by simp
  next
    case False
    with total[of x y] have "before y x" by simp
    with False Cons show ?thesis by (simp add: set_insert_before)
  qed
qed

lemma sorted_order_by:
  assumes total: "\<And>a b. before a b \<or> before b a"
    and trans: "\<And>a b c. before a b \<Longrightarrow> before b c \<Longrightarrow> before a c"
  shows "sorted_wrt before (order_by before rows)"
proof (induction rows)
  case Nil
  show ?case by (simp add: order_by_def)
next
  case (Cons r rows)
  have "sorted_wrt before (insert_before before r (order_by before rows))"
    using total trans Cons by (rule sorted_insert_before)
  then show ?case by (simp add: order_by_def)
qed

lemma an_newer_total: "an_newer a b \<or> an_newer b a"
  by (auto simp: an_newer_def desc_nulls_last_def split: option.splits)

lemma an_newer_trans: "an_newer a b \<Longrightarrow> an_newer b c \<Longrightarrow> an_newer a c"
  by (auto simp: an_newer_def desc_nulls_last_def split: option.splits)

lemma am_newer_total: "am_newer a b \<or> am_newer b a"
  by (auto simp: am_newer_def desc_nulls_first_def split: option.splits)

lemma am_newer_trans: "am_newer a b \<Longrightarrow> am_newer b c \<Longrightarrow> am_newer a c"
  by (auto simp: am_newer_def desc_nulls_first_def split: option.splits)

lemma order_by_sorted: "sorted_wrt before rows \<Longrightarrow> order_by before rows = rows"
proof (induction rows)
  case Nil
  show ?case by (simp add: order_by_def)
next
  case (Cons r rows)
  then have ih: "order_by before rows = rows" by simp
  have "insert_before before r rows = r # rows"
  proof (cases rows)
    case Nil
    then show ?thesis by simp
  next
    case tail: (Cons y ys)
    with Cons.prems show ?thesis by simp
  qed
  with ih show ?case by (simp add: order_by_def)
qed

lemma an_newer_times:
  "an_newer x y \<Longrightarrow> an_timestamp x = Some a \<Longrightarrow> an_timestamp y = Some b \<Longrightarrow> b \<le> a"
  by (simp add: an_newer_def desc_nulls_last_def)

lemma am_newer_times:
  "am_newer x y \<Longrightarrow> am_created_at x = Some a \<Longrightarrow> am_created_at y = Some b \<Longrightarrow> b \<le> a"
  by (simp add: am_newer_def desc_nulls_first_def)

lemma an_get_all_sorted: "sorted_wrt an_newer (an_get_all scan t)"
  unfolding an_get_all_def by (rule sorted_order_by) (rule an_newer_total, rule an_newer_trans)

lemma am_get_all_sorted: "sorted_wrt am_newer (am_get_all scan u)"
  unfolding am_get_all_def by (rule sorted_order_by) (rule am_newer_total, rule am_newer_trans)

text \<open>
  C10. In both variants \<open>get_all\<close> returns the stored assets newest first. When the database
  reads exactly the rows of the table, the listing holds exactly these rows, each as often
  as it is stored. Of two rows of the listing with creation times, the one listed first has
  the later or the same creation time: the column \<open>timestamp\<close> of anuncio and the column
  \<open>created_at\<close> of asset\_manager descend along the listing.
\<close>

theorem get_all_descending_times:
  "(mset (scan t) = mset t \<longrightarrow> mset (an_get_all scan t) = mset t)
   \<and> (\<forall>i j a b. i < j \<and> j < length (an_get_all scan t)
          \<and> an_timestamp (an_get_all scan t ! i) = Some a
          \<and> an_timestamp (an_get_all scan t ! j) = Some b
        \<longrightarrow> b \<le> a)
   \<and> (mset (scan' u) = mset u \<longrightarrow> mset (am_get_all scan' u) = mset u)
   \<and> (\<forall>i j a b. i < j \<and> j < length (am_get_all scan' u)
          \<and> am_created_at (am_get_all scan' u ! i) = Some a
          \<and> am_created_at (am_get_all scan' u ! j) = Some b
        \<longrightarrow> b \<le> a)"
proof (intro conjI allI impI)
  assume "mset (scan t) = mset t"
  then show "mset (an_get_all scan t) = mset t" by (simp add: an_get_all_def mset_order_by)
next
  assume "mset (scan' u) = mset u"
  then show "mset (am_get_all scan' u) = mset u" by (simp add: am_get_all_def mset_order_by)
next
  fix i j a b
  assume h: "i < j \<and> j < length (an_get_all scan t)
          \<and> an_timestamp (an_get_all scan t ! i) = Some a
          \<and> an_timestamp (an_get_all scan t ! j) = Some b"
  then have "an_newer (an_get_all scan t ! i) (an_get_all scan t ! j)"
    using an_get_all_sorted[of scan t] by (simp add: sorted_wrt_iff_nth_less)
  with h show "b \<le> a" by (auto intro: an_newer_times)
next
  fix i j a b
  assume h: "i < j \<and> j < length (am_get_all scan' u)
          \<and> am_created_at (am_get_all scan' u ! i) = Some a
          \<and> am_created_at (am_get_all scan' u ! j) = Some b"
  then have "am_newer (am_get_all scan' u ! i) (am_get_all scan' u ! j)"
    using am_get_all_sorted[of scan' u] by (simp add: sorted_wrt_iff_nth_less)
  with h show "b \<le> a" by (auto intro: am_newer_times)
qed

text \<open>
  Three rows stored at the times 10, 30 and 20, read in the order of their storage: the
  listing has the times 30, 20, 10.
\<close>

theorem get_all_descending_times_witness:
  "an_get_all id [an_stored 1 ''a'' ''a'' 10, an_stored 2 ''b'' ''b'' 30, an_stored 3 ''c'' ''c'' 20]
     = [an_stored 2 ''b'' ''b'' 30, an_stored 3 ''c'' ''c'' 20, an_stored 1 ''a'' ''a'' 10]
   \<and> map an_timestamp
        (an_get_all id [an_stored 1 ''a'' ''a'' 10, an_stored 2 ''b'' ''b'' 30,
                        an_stored 3 ''c'' ''c'' 20])
     = [Some 30, Some 20, Some 10]
   \<and> mset (an_get_all id [an_stored 1 ''a'' ''a'' 10, an_stored 2 ''b'' ''b'' 30,
                           an_stored 3 ''c'' ''c'' 20])
     = mset [an_stored 1 ''a'' ''a'' 10, an_stored 2 ''b'' ''b'' 30, an_stored 3 ''c'' ''c'' 20]
   \<and> map am_created_at
        (am_get_all id [am_stored 1 ''a'' ''S1'' ''a'' 10, am_stored 2 ''b'' ''S2'' ''b'' 30,
                        am_stored 3 ''c'' ''S3'' ''c'' 20])
     = [Some 30, Some 20, Some 10]
   \<and> mset (am_get_all id [am_stored 1 ''a'' ''S1'' ''a'' 10, am_stored 2 ''b'' ''S2'' ''b'' 30,
                           am_stored 3 ''c'' ''S3'' ''c'' 20])
     = mset [am_stored 1 ''a'' ''S1'' ''a'' 10, am_stored 2 ''b'' ''S2'' ''b'' 30,
             am_stored 3 ''c'' ''S3'' ''c'' 20]
   \<and> (20::int) \<le> 30"
proof -
  let ?T = "[an_stored 1 ''a'' ''a'' 10, an_stored 2 ''b'' ''b'' 30, an_stored 3 ''c'' ''c'' 20]"
  let ?U = "[am_stored 1 ''a'' ''S1'' ''a'' 10, am_stored 2 ''b'' ''S2'' ''b'' 30,
             am_stored 3 ''c'' ''S3'' ''c'' 20]"
  have l: "an_get_all id ?T
     = [an_stored 2 ''b'' ''b'' 30, an_stored 3 ''c'' ''c'' 20, an_stored 1 ''a'' ''a'' 10]"
    by code_simp
  have ts: "map an_timestamp (an_get_all id ?T) = [Some 30, Some 20, Some 10]" by code_simp
  have us: "map am_created_at (am_get_all id ?U) = [Some 30, Some 20, Some 10]" by code_simp
  have p0: "(0::nat) < 1" by simp
  have p1: "1 < length (an_get_all id ?T)" by code_simp
  have t0: "an_timestamp (an_get_all id ?T ! 0) = Some 30" by code_simp
  have t1: "an_timestamp (an_get_all id ?T ! 1) = Some 20" by code_simp
  have s1: "mset (id ?T) = mset ?T" and s2: "mset (id ?U) = mset ?U" by simp_all
  note inst = get_all_descending_times[of id ?T id ?U]
  have m1: "mset (an_get_all id ?T) = mset ?T"
    by (rule conjunct1[OF inst, rule_format]) (rule s1)
  note q = conjunct1[OF conjunct2[OF inst]]
  have m2: "mset (am_get_all id ?U) = mset ?U"
    by (rule conjunct1[OF conjunct2[OF conjunct2[OF inst]], rule_format]) (rule s2)
  have le: "(20::int) \<le> 30"
    by (rule q[rule_format, of 0 1 30 20]) (intro conjI p0 p1 t0 t1)
  show ?thesis by (intro conjI l ts m1 us m2 le)
qed

text \<open>
  Two rows of the same time come out as they were read; a listing that is ordered by the
  column is the listing of the scan that reads the rows in that order.
\<close>

lemma get_all_equal_times:
  "an_get_all id [an_stored 1 ''a'' ''a'' 10, an_stored 2 ''b'' ''b'' 10]
     = [an_stored 1 ''a'' ''a'' 10, an_stored 2 ''b'' ''b'' 10]
   \<and> an_get_all rev [an_stored 1 ''a'' ''a'' 10, an_stored 2 ''b'' ''b'' 10]
     = [an_stored 2 ''b'' ''b'' 10, an_stored 1 ''a'' ''a'' 10]"
  by code_simp

lemma get_all_any_tie_order:
  "sorted_wrt an_newer rows \<Longrightarrow> an_get_all (\<lambda>t. rows) t = rows"
  by (simp add: an_get_all_def order_by_sorted)

section \<open>URLs: urllib.parse\<close>

text \<open>
  \<open>is_safe_url\<close> calls \<open>urlparse\<close> and \<open>urljoin\<close> of the standard library. They are
  written out here from \<open>Lib/urllib/parse.py\<close> of CPython 3.11, for \<open>str\<close> arguments and
  \<open>allow_fragments=True\<close>. Two checks of \<open>urlsplit\<close> are not translated:
  \<^item> \<open>_check_bracketed_host\<close> (is the text between \<open>[\<close> and \<open>]\<close> an IPv6 or IPvFuture
    address?) is the parameter \<open>chk\<close> of every function here; versions before 3.11.4 have
    no such check, which is \<open>chk = no_bracket_check\<close>;
  \<^item> \<open>_checknetloc\<close> raises only when the NFKC form of the network location holds one of
    the characters \<open>/?#@:\<close> that the location itself does not hold, and no character up to
    U+00FF has such a form.
\<close>

definition uses_relative :: "string list" where
  "uses_relative = ['''', ''ftp'', ''http'', ''gopher'', ''nntp'', ''imap'',
                    ''wais'', ''file'', ''https'', ''shttp'', ''mms'',
                    ''prospero'', ''rtsp'', ''rtsps'', ''rtspu'', ''sftp'',
                    ''svn'', ''svn+ssh'', ''ws'', ''wss'']"

definition uses_netloc :: "string list" where
  "uses_netloc = ['''', ''ftp'', ''http'', ''gopher'', ''nntp'', ''telnet'',
                  ''imap'', ''wais'', ''file'', ''mms'', ''https'', ''shttp'',
                  ''snews'', ''prospero'', ''rtsp'', ''rtsps'', ''rtspu'', ''rsync'',
                  ''svn'', ''svn+ssh'', ''sftp'', ''nfs'', ''git'', ''git+ssh'',
                  ''ws'', ''wss'']"

definition uses_params :: "string list" where
  "uses_params = ['''', ''ftp'', ''hdl'', ''prospero'', ''http'', ''imap'',
                  ''https'', ''shttp'', ''rtsp'', ''rtsps'', ''rtspu'', ''sip'',
                  ''sips'', ''mms'', ''sftp'', ''tel'']"

definition ascii_alpha :: "char \<Rightarrow> bool" where
  "ascii_alpha c = (let n = code c in (65 \<le> n \<and> n \<le> 90) \<or> (97 \<le> n \<and> n \<le> 122))"

definition scheme_char :: "char \<Rightarrow> bool" where
  "scheme_char c = (let n = code c in
     (97 \<le> n \<and> n \<le> 122) \<or> (65 \<le> n \<and> n \<le> 90) \<or> (48 \<le> n \<and> n \<le> 57)
     \<or> c = CHR ''+'' \<or> c = CHR ''-'' \<or> c = CHR ''.'')"

text \<open>The characters of \<open>_WHATWG_C0_CONTROL_OR_SPACE\<close> and of \<open>_UNSAFE_URL_BYTES_TO_REMOVE\<close>.\<close>

definition c0_or_space :: "char \<Rightarrow> bool" where
  "c0_or_space c = (code c \<le> 32)"

definition unsafe_byte :: "char \<Rightarrow> bool" where
  "unsafe_byte c = (code c = 9 \<or> code c = 13 \<or> code c = 10)"

text \<open>\<open>s.find(c, start)\<close>, with \<open>None\<close> for \<open>-1\<close>; \<open>s.rfind(c)\<close>; \<open>s.split(c, 1)\<close> where \<open>c\<close> occurs.\<close>

fun find_from :: "char \<Rightarrow> string \<Rightarrow> nat \<Rightarrow> nat option" where
  "find_from c [] start = None"
| "find_from c (x # xs) 0 = (if x = c then Some 0 else map_option Suc (find_from c xs 0))"
| "find_from c (x # xs) (Suc start) = map_option Suc (find_from c xs start)"

definition rfind :: "char \<Rightarrow> string \<Rightarrow> nat option" where
  "rfind c s = map_option (\<lambda>k. length s - Suc k) (find_from c (rev s) 0)"

definition split_once :: "char \<Rightarrow> string \<Rightarrow> string \<times> string" where
  "split_once c s = (takeWhile (\<lambda>x. x \<noteq> c) s, tl (dropWhile (\<lambda>x. x \<noteq> c) s))"

text \<open>\<open>s.split(c)\<close> and \<open>c.join(parts)\<close>.\<close>

fun split_on :: "char \<Rightarrow> string \<Rightarrow> string list" where
  "split_on c [] = [[]]"
| "split_on c (x # xs) =
     (if x = c then [] # split_on c xs
      else (case split_on c xs of [] \<Rightarrow> [[x]] | p # ps \<Rightarrow> (x # p) # ps))"

fun join :: "char \<Rightarrow> string list \<Rightarrow> string" where
  "join c [] = []"
| "join c [p] = p"
| "join c (p # q # ps) = p @ c # join c (q # ps)"

record split_result =
  s_scheme :: string
  s_netloc :: string
  s_path :: string
  s_query :: string
  s_fragment :: string

record parse_result =
  p_scheme :: string
  p_netloc :: string
  p_path :: string
  p_params :: string
  p_query :: string
  p_fragment :: string

text \<open>\<open>_splitnetloc(url, 2)\<close>: the network location ends before the first of \<open>/?#\<close>.\<close>

definition netloc_end :: "char \<Rightarrow> bool" where
  "netloc_end c = (c = CHR ''/'' \<or> c = CHR ''?'' \<or> c = CHR ''#'')"

definition splitnetloc :: "string \<Rightarrow> string \<times> string" where
  "splitnetloc url =
     (takeWhile (\<lambda>c. \<not> netloc_end c) (drop 2 url), dropWhile (\<lambda>c. \<not> netloc_end c) (drop 2 url))"

text \<open>\<open>netloc.partition('[')[2].partition(']')[0]\<close>\<close>

definition bracketed_host :: "string \<Rightarrow> string" where
  "bracketed_host netloc =
     takeWhile (\<lambda>c. c \<noteq> CHR '']'') (tl (dropWhile (\<lambda>c. c \<noteq> CHR ''['') netloc))"

definition no_bracket_check :: "string \<Rightarrow> bool" where
  "no_bracket_check hostname = True"

definition urlsplit :: "(string \<Rightarrow> bool) \<Rightarrow> string \<Rightarrow> string \<Rightarrow> error + split_result" where
  "urlsplit chk url0 scheme0 =
     (let url1 = filter (\<lambda>c. \<not> unsafe_byte c) (dropWhile c0_or_space url0);
          scheme1 = filter (\<lambda>c. \<not> unsafe_byte c)
                      (rev (dropWhile c0_or_space (rev (dropWhile c0_or_space scheme0))));
          (scheme, url2) =
             (case find_from (CHR '':'') url1 0 of
                None \<Rightarrow> (scheme1, url1)
              | Some i \<Rightarrow>
                  if i > 0 \<and> code (hd url1) < 128 \<and> ascii_alpha (hd url1)
                     \<and> list_all scheme_char (take i url1)
                  then (lower (take i url1), drop (Suc i) url1)
                  else (scheme1, url1));
          (netloc, url3) = (if take 2 url2 = ''//'' then splitnetloc url2 else ('''', url2))
      in if take 2 url2 = ''//''
            \<and> ((CHR ''['' \<in> set netloc \<and> CHR '']'' \<notin> set netloc)
               \<or> (CHR '']'' \<in> set netloc \<and> CHR ''['' \<notin> set netloc))
         then Inl ValueError
         else if take 2 url2 = ''//'' \<and> CHR ''['' \<in> set netloc \<and> CHR '']'' \<in> set netloc
                 \<and> \<not> chk (bracketed_host netloc)
         then Inl ValueError
         else
           (let (url4, fragment) =
                  (if CHR ''#'' \<in> set url3 then split_once (CHR ''#'') url3 else (url3, ''''));
                (url5, query) =
                  (if CHR ''?'' \<in> set url4 then split_once (CHR ''?'') url4 else (url4, ''''))
            in Inr \<lparr>s_scheme = scheme, s_netloc = netloc, s_path = url5, s_query = query,
                     s_fragment = fragment\<rparr>))"

definition splitparams :: "string \<Rightarrow> string \<times> string" where
  "splitparams url =
     (if CHR ''/'' \<in> set url
      then (case find_from (CHR '';'') url (case rfind (CHR ''/'') url of None \<Rightarrow> 0 | Some k \<Rightarrow> k) of
              None \<Rightarrow> (url, '''')
            | Some i \<Rightarrow> (take i url, drop (Suc i) url))
      else (case find_from (CHR '';'') url 0 of
              None \<Rightarrow> (butlast url, url)
            | Some i \<Rightarrow> (take i url, drop (Suc i) url)))"

definition urlparse :: "(string \<Rightarrow> bool) \<Rightarrow> string \<Rightarrow> string \<Rightarrow> error + parse_result" where
  "urlparse chk url scheme0 =
     (case urlsplit chk url scheme0 of
        Inl e \<Rightarrow> Inl e
      | Inr r \<Rightarrow>
          (let (path, params) =
                 (if s_scheme r \<in> set uses_params \<and> CHR '';'' \<in> set (s_path r)
                  then splitparams (s_path r) else (s_path r, ''''))
           in Inr \<lparr>p_scheme = s_scheme r, p_netloc = s_netloc r, p_path = path,
                    p_params = params, p_query = s_query r, p_fragment = s_fragment r\<rparr>))"

definition urlunsplit :: "string \<Rightarrow> string \<Rightarrow> string \<Rightarrow> string \<Rightarrow> string \<Rightarrow> string" where
  "urlunsplit scheme netloc url0 query fragment =
     (let url1 = (if netloc \<noteq> [] \<or> (scheme \<noteq> [] \<and> scheme \<in> set uses_netloc) \<or> take 2 url0 = ''//''
                  then ''//'' @ netloc
                       @ (if url0 \<noteq> [] \<and> take 1 url0 \<noteq> ''/'' then ''/'' @ url0 else url0)
                  else url0);
          url2 = (if scheme \<noteq> [] then scheme @ '':'' @ url1 else url1);
          url3 = (if query \<noteq> [] then url2 @ ''?'' @ query else url2)
      in if fragment \<noteq> [] then url3 @ ''#'' @ fragment else url3)"

definition urlunparse :: "parse_result \<Rightarrow> string" where
  "urlunparse p =
     urlunsplit (p_scheme p) (p_netloc p)
       (if p_params p \<noteq> [] then p_path p @ '';'' @ p_params p else p_path p)
       (p_query p) (p_fragment p)"

text \<open>The loop \<open>for seg in segments\<close> of \<open>urljoin\<close>, with its list \<open>resolved_path\<close>.\<close>

fun resolve :: "string list \<Rightarrow> string list \<Rightarrow> string list" where
  "resolve resolved_path [] = resolved_path"
| "resolve resolved_path (seg # segs) =
     (if seg = ''..'' then resolve (butlast resolved_path) segs
      else if seg = ''.'' then resolve resolved_path segs
      else resolve (resolved_path @ [seg]) segs)"

text \<open>\<open>segments[1:-1] = filter(None, segments[1:-1])\<close>\<close>

definition filter_inner :: "string list \<Rightarrow> string list" where
  "filter_inner segments =
     (case segments of
        [] \<Rightarrow> []
      | [x] \<Rightarrow> [x]
      | x # y # ys \<Rightarrow> x # filter (\<lambda>s. s \<noteq> []) (butlast (y # ys)) @ [last (y # ys)])"

definition urljoin :: "(string \<Rightarrow> bool) \<Rightarrow> string \<Rightarrow> string \<Rightarrow> error + string" where
  "urljoin chk base url =
     (if base = [] then Inr url
      else if url = [] then Inr base
      else
        (case urlparse chk base '''' of
           Inl e \<Rightarrow> Inl e
         | Inr b \<Rightarrow>
            (case urlparse chk url (p_scheme b) of
               Inl e \<Rightarrow> Inl e
             | Inr u \<Rightarrow>
                 if p_scheme u \<noteq> p_scheme b \<or> p_scheme u \<notin> set uses_relative then Inr url
                 else if p_scheme u \<in> set uses_netloc \<and> p_netloc u \<noteq> [] then Inr (urlunparse u)
                 else
                   (let netloc = (if p_scheme u \<in> set uses_netloc then p_netloc b else p_netloc u)
                    in if p_path u = [] \<and> p_params u = []
                       then Inr (urlunparse (u\<lparr>p_netloc := netloc, p_path := p_path b,
                                   p_params := p_params b,
                                   p_query := (if p_query u = [] then p_query b else p_query u)\<rparr>))
                       else
                         (let parts = split_on (CHR ''/'') (p_path b);
                              base_parts = (if last parts \<noteq> [] then butlast parts else parts);
                              segments =
                                (if take 1 (p_path u) = ''/'' then split_on (CHR ''/'') (p_path u)
                                 else filter_inner (base_parts @ split_on (CHR ''/'') (p_path u)));
                              resolved0 = resolve [] segments;
                              resolved_path =
                                (if last segments = ''.'' \<or> last segments = ''..''
                                 then resolved0 @ [[]] else resolved0);
                              joined = join (CHR ''/'') resolved_path
                          in Inr (urlunparse (u\<lparr>p_netloc := netloc,
                                    p_path := (if joined = [] then ''/'' else joined)\<rparr>)))))))"

section \<open>The redirect guard (run.py of both variants)\<close>

text \<open>
  \<open>is_safe_url\<close> is the same function in \<open>anuncio/run.py\<close> and \<open>asset_manager/run.py\<close>.
  \<open>request.host_url\<close> is its argument \<open>host_url\<close> here: the scheme and the host of the
  request, as in \<open>http://example.com/\<close>. The function has no \<open>try\<close>: a \<open>ValueError\<close> of the
  parser leaves it.
\<close>

definition is_safe_url :: "(string \<Rightarrow> bool) \<Rightarrow> string \<Rightarrow> string \<Rightarrow> error + bool" where
  "is_safe_url chk host_url target =
     (case urlparse chk host_url '''' of
        Inl e \<Rightarrow> Inl e
      | Inr ref_url \<Rightarrow>
         (case urljoin chk host_url target of
            Inl e \<Rightarrow> Inl e
          | Inr joined \<Rightarrow>
             (case urlparse chk joined '''' of
                Inl e \<Rightarrow> Inl e
              | Inr target_url \<Rightarrow>
                  Inr ((p_scheme target_url = ''http'' \<or> p_scheme target_url = ''https'')
                       \<and> p_netloc ref_url = p_netloc target_url))))"

section \<open>Users, forms and the authentication routes\<close>

text \<open>
  Flask, Flask-Login, Flask-WTF and Werkzeug are libraries. What the routes take from them
  is part of the request here: whether \<open>current_user\<close> is authenticated, whether the form was
  submitted (\<open>form.is_submitted()\<close>: the method is POST, PUT, PATCH or DELETE), whether its
  CSRF token is valid, the data of its fields, the query argument \<open>next\<close> and
  \<open>request.host_url\<close>. The library functions are parameters: \<open>check_pw\<close> is Werkzeug's
  \<open>check_password_hash\<close>, \<open>gen_pw\<close> its \<open>generate_password_hash\<close>, \<open>email_error\<close> is the package
  \<open>email_validator\<close> (\<open>None\<close> for a valid address, the text of its \<open>EmailNotValidError\<close>
  otherwise), and \<open>chk\<close> is the check of bracketed hosts of \<open>urlsplit\<close>.
\<close>

record user =
  u_id :: "nat option"
  u_name :: string
  u_email :: string
  u_password_hash :: string

text \<open>
  The column \<open>u_name\<close> is \<open>name\<close> in anuncio and \<open>username\<close> in asset\_manager; the class
  \<open>User\<close> is otherwise the same in both. \<open>email\<close> is a \<open>unique\<close> column.
\<close>

definition get_by_email :: "user list \<Rightarrow> string \<Rightarrow> user option" where
  "get_by_email users email = find (\<lambda>u. u_email u = email) users"

definition check_password :: "(string \<Rightarrow> string \<Rightarrow> bool) \<Rightarrow> user \<Rightarrow> string \<Rightarrow> bool" where
  "check_password check_pw u password = check_pw (u_password_hash u) password"

definition set_password :: "(string \<Rightarrow> string) \<Rightarrow> user \<Rightarrow> string \<Rightarrow> user" where
  "set_password gen_pw u password = u\<lparr>u_password_hash := gen_pw password\<rparr>"

definition user_ids :: "user list \<Rightarrow> nat list" where
  "user_ids users = concat (map (\<lambda>u. case u_id u of None \<Rightarrow> [] | Some i \<Rightarrow> [i]) users)"

text \<open>\<open>User.save\<close> of a new user: \<open>add\<close> and \<open>commit\<close>.\<close>

definition user_save :: "user list \<Rightarrow> user \<Rightarrow> error + user list \<times> user" where
  "user_save users u =
     (if get_by_email users (u_email u) \<noteq> None then Inl IntegrityError
      else (let u' = u\<lparr>u_id := Some (Suc (fold max (user_ids users) 0))\<rparr>
            in Inr (users @ [u'], u')))"

record request =
  rq_authenticated :: bool
  rq_submitted :: bool
  rq_csrf_ok :: bool
  rq_name :: string
  rq_email :: string
  rq_password :: string
  rq_password2 :: string
  rq_remember_me :: bool
  rq_next :: "string option"
  rq_host_url :: string

subsection \<open>Validators\<close>

text \<open>
  A validator of WTForms returns, raises \<open>ValidationError\<close> (the error is recorded and the
  chain of the field goes on) or raises \<open>StopValidation\<close> (the error is recorded and the
  chain ends). A form is valid when no field has an error. Errors with a message of the
  source carry it; the others are the library's default messages.
\<close>

datatype form_error = Required | InvalidEmail | NotEqualTo | CsrfFailed | Message string

datatype verdict = Passed | ValidationError form_error | StopValidation form_error

fun run_chain :: "verdict list \<Rightarrow> form_error list" where
  "run_chain [] = []"
| "run_chain (Passed # vs) = run_chain vs"
| "run_chain (ValidationError e # vs) = e # run_chain vs"
| "run_chain (StopValidation e # vs) = [e]"

definition py_strip :: "string \<Rightarrow> string" where
  "py_strip s = rev (dropWhile py_isspace (rev (dropWhile py_isspace s)))"

definition DataRequired :: "form_error \<Rightarrow> string \<Rightarrow> verdict" where
  "DataRequired e fdata = (if fdata \<noteq> [] \<and> py_strip fdata \<noteq> [] then Passed else StopValidation e)"

definition Email :: "(string \<Rightarrow> string option) \<Rightarrow> string \<Rightarrow> verdict" where
  "Email email_error fdata =
     (case email_error fdata of None \<Rightarrow> Passed | Some _ \<Rightarrow> ValidationError InvalidEmail)"

definition EqualTo :: "string \<Rightarrow> string \<Rightarrow> verdict" where
  "EqualTo other fdata = (if fdata \<noteq> other then ValidationError NotEqualTo else Passed)"

definition Length :: "nat \<Rightarrow> nat option \<Rightarrow> form_error \<Rightarrow> string \<Rightarrow> verdict" where
  "Length lo hi e fdata =
     (if lo \<le> length fdata \<and> (case hi of None \<Rightarrow> True | Some m \<Rightarrow> length fdata \<le> m)
      then Passed else ValidationError e)"

definition csrf_errors :: "request \<Rightarrow> form_error list" where
  "csrf_errors rq = (if rq_csrf_ok rq then [] else [CsrfFailed])"

text \<open>\<open>SignupForm.validate_email\<close> of anuncio/forms.py.\<close>

definition validate_email :: "user list \<Rightarrow> string \<Rightarrow> verdict" where
  "validate_email users fdata =
     (if get_by_email users fdata \<noteq> None
      then ValidationError (Message ''This email is already registered.'') else Passed)"

text \<open>\<open>validate_email_format\<close> of asset\_manager/forms.py.\<close>

definition validate_email_format :: "(string \<Rightarrow> string option) \<Rightarrow> string \<Rightarrow> verdict" where
  "validate_email_format email_error fdata =
     (case email_error fdata of None \<Rightarrow> Passed | Some msg \<Rightarrow> ValidationError (Message msg))"

subsection \<open>Forms\<close>

definition an_LoginForm_errors :: "(string \<Rightarrow> string option) \<Rightarrow> request \<Rightarrow> form_error list" where
  "an_LoginForm_errors email_error rq =
     run_chain [DataRequired Required (rq_email rq), Email email_error (rq_email rq)]
     @ run_chain [DataRequired Required (rq_password rq)]
     @ csrf_errors rq"

definition an_SignupForm_errors ::
  "(string \<Rightarrow> string option) \<Rightarrow> user list \<Rightarrow> request \<Rightarrow> form_error list" where
  "an_SignupForm_errors email_error users rq =
     run_chain [DataRequired Required (rq_name rq)]
     @ run_chain [DataRequired Required (rq_email rq), Email email_error (rq_email rq),
                  validate_email users (rq_email rq)]
     @ run_chain [DataRequired Required (rq_password rq)]
     @ run_chain [DataRequired Required (rq_password2 rq), EqualTo (rq_password rq) (rq_password2 rq)]
     @ csrf_errors rq"

definition am_LoginForm_errors :: "request \<Rightarrow> form_error list" where
  "am_LoginForm_errors rq =
     run_chain [DataRequired (Message ''Email is required.'') (rq_email rq)]
     @ run_chain [DataRequired (Message ''Password is required.'') (rq_password rq)]
     @ csrf_errors rq"

definition am_SignupForm_errors :: "(string \<Rightarrow> string option) \<Rightarrow> request \<Rightarrow> form_error list" where
  "am_SignupForm_errors email_error rq =
     run_chain [DataRequired (Message ''Username is required.'') (rq_name rq),
                Length 3 (Some 80) (Message ''Username must be between 3 and 80 characters.'')
                  (rq_name rq)]
     @ run_chain [DataRequired (Message ''Email is required.'') (rq_email rq),
                  validate_email_format email_error (rq_email rq)]
     @ run_chain [DataRequired (Message ''Password is required.'') (rq_password rq),
                  Length 6 None (Message ''Password must be at least 6 characters long.'')
                    (rq_password rq)]
     @ csrf_errors rq"

subsection \<open>Responses\<close>

text \<open>
  What a route does: the response (a redirect to a URL, or a rendered template with the
  errors of its form), the messages it flashed with their categories, and the user it passed
  to \<open>login_user\<close>. The endpoints \<open>index\<close>, \<open>login\<close> and \<open>signup\<close> have the URLs \<open>/\<close>, \<open>/login\<close>
  and \<open>/signup/\<close>.
\<close>

datatype response = Redirect string | Render string "form_error list"

record outcome =
  o_response :: response
  o_flashes :: "(string \<times> string) list"
  o_login_user :: "user option"

definition respond :: "response \<Rightarrow> (string \<times> string) list \<Rightarrow> user option \<Rightarrow> outcome" where
  "respond r fl u = \<lparr>o_response = r, o_flashes = fl, o_login_user = u\<rparr>"

subsection \<open>login\<close>

text \<open>
  anuncio/run.py. The message of a failed login is \<open>Credenciales invalidas\<close> with an acute
  accent on the second \<open>a\<close>, the character U+00E1.
\<close>

definition an_login ::
  "(string \<Rightarrow> bool) \<Rightarrow> (string \<Rightarrow> string option) \<Rightarrow> (string \<Rightarrow> string \<Rightarrow> bool)
     \<Rightarrow> user list \<Rightarrow> request \<Rightarrow> error + outcome" where
  "an_login chk email_error check_pw users rq =
     (if rq_authenticated rq then Inr (respond (Redirect ''/'') [] None)
      else if rq_submitted rq \<and> an_LoginForm_errors email_error rq = []
      then (case get_by_email users (rq_email rq) of
              None \<Rightarrow>
                Inr (respond (Redirect ''/login'')
                       [(''Credenciales inv'' @ [CHR 0xE1] @ ''lidas'', ''danger'')] None)
            | Some u \<Rightarrow>
                if \<not> check_password check_pw u (rq_password rq)
                then Inr (respond (Redirect ''/login'')
                            [(''Credenciales inv'' @ [CHR 0xE1] @ ''lidas'', ''danger'')] None)
                else (case rq_next rq of
                        None \<Rightarrow> Inr (respond (Redirect ''/'') [] (Some u))
                      | Some next_page \<Rightarrow>
                          if next_page = [] then Inr (respond (Redirect ''/'') [] (Some u))
                          else (case is_safe_url chk (rq_host_url rq) next_page of
                                  Inl e \<Rightarrow> Inl e
                                | Inr safe \<Rightarrow>
                                    if \<not> safe then Inr (respond (Redirect ''/'') [] (Some u))
                                    else Inr (respond (Redirect next_page) [] (Some u)))))
      else Inr (respond (Render ''login_form.html''
                           (if rq_submitted rq then an_LoginForm_errors email_error rq else []))
                  [] None))"

text \<open>asset\_manager/run.py.\<close>

definition am_login ::
  "(string \<Rightarrow> bool) \<Rightarrow> (string \<Rightarrow> string \<Rightarrow> bool) \<Rightarrow> user list \<Rightarrow> request \<Rightarrow> error + outcome" where
  "am_login chk check_pw users rq =
     (if rq_authenticated rq then Inr (respond (Redirect ''/'') [] None)
      else if rq_submitted rq \<and> am_LoginForm_errors rq = []
      then (case get_by_email users (rq_email rq) of
              None \<Rightarrow>
                Inr (respond (Render ''login_form.html'' [])
                       [(''Invalid email or password.'', ''error'')] None)
            | Some u \<Rightarrow>
                if check_password check_pw u (rq_password rq)
                then (let welcome = [(''Welcome back, '' @ u_name u @ ''!'', ''success'')]
                      in case rq_next rq of
                           None \<Rightarrow> Inr (respond (Redirect ''/'') welcome (Some u))
                         | Some next_page \<Rightarrow>
                             if next_page = [] then Inr (respond (Redirect ''/'') welcome (Some u))
                             else (case is_safe_url chk (rq_host_url rq) next_page of
                                     Inl e \<Rightarrow> Inl e
                                   | Inr safe \<Rightarrow>
                                       if safe then Inr (respond (Redirect next_page) welcome (Some u))
                                       else Inr (respond (Redirect ''/'') welcome (Some u))))
                else Inr (respond (Render ''login_form.html'' [])
                            [(''Invalid email or password.'', ''error'')] None))
      else Inr (respond (Render ''login_form.html''
                           (if rq_submitted rq then am_LoginForm_errors rq else []))
                  [] None))"

subsection \<open>signup\<close>

text \<open>
  anuncio/run.py. The message for a registered address is \<open>Este email ya esta registrado.\<close>
  with an acute accent on the last \<open>a\<close> of \<open>esta\<close>, the character U+00E1. No \<open>try\<close> stands
  around \<open>new_user.save()\<close>.
\<close>

definition an_signup ::
  "(string \<Rightarrow> string option) \<Rightarrow> (string \<Rightarrow> string) \<Rightarrow> user list \<Rightarrow> request
     \<Rightarrow> error + user list \<times> outcome" where
  "an_signup email_error gen_pw users rq =
     (if rq_authenticated rq then Inr (users, respond (Redirect ''/'') [] None)
      else if rq_submitted rq \<and> an_SignupForm_errors email_error users rq = []
      then (if get_by_email users (rq_email rq) \<noteq> None
            then Inr (users, respond (Redirect ''/signup/'')
                               [(''Este email ya est'' @ [CHR 0xE1] @ '' registrado.'', ''danger'')]
                               None)
            else (let new_user = set_password gen_pw
                                   \<lparr>u_id = None, u_name = rq_name rq, u_email = rq_email rq,
                                    u_password_hash = ''''\<rparr> (rq_password rq)
                  in case user_save users new_user of
                       Inl e \<Rightarrow> Inl e
                     | Inr (users', saved) \<Rightarrow>
                         Inr (users', respond (Redirect ''/'')
                                        [(''Registro exitoso. Bienvenido al sistema.'', ''success'')]
                                        (Some saved))))
      else Inr (users, respond (Render ''signup_form.html''
                                  (if rq_submitted rq
                                   then an_SignupForm_errors email_error users rq else []))
                         [] None))"

text \<open>
  asset\_manager/run.py. An exception of \<open>new_user.save()\<close> is caught: the session is rolled
  back, the message with the text of the exception is flashed and the form is rendered.
\<close>

definition exception_text :: "error \<Rightarrow> string" where
  "exception_text e = (case e of IntegrityError \<Rightarrow> ''IntegrityError'' | ValueError \<Rightarrow> ''ValueError'')"

definition am_signup ::
  "(string \<Rightarrow> string option) \<Rightarrow> (string \<Rightarrow> string) \<Rightarrow> user list \<Rightarrow> request
     \<Rightarrow> error + user list \<times> outcome" where
  "am_signup email_error gen_pw users rq =
     (if rq_authenticated rq then Inr (users, respond (Redirect ''/'') [] None)
      else if rq_submitted rq \<and> am_SignupForm_errors email_error rq = []
      then (if get_by_email users (rq_email rq) \<noteq> None
            then Inr (users, respond (Redirect ''/signup/'')
                               [(''Email address already exists. Please log in.'', ''error'')] None)
            else (let new_user = set_password gen_pw
                                   \<lparr>u_id = None, u_name = rq_name rq, u_email = rq_email rq,
                                    u_password_hash = ''''\<rparr> (rq_password rq)
                  in case user_save users new_user of
                       Inl e \<Rightarrow>
                         Inr (users, respond (Render ''signup_form.html'' [])
                                       [(''An error occurred during registration: ''
                                           @ exception_text e, ''error'')] None)
                     | Inr (users', saved) \<Rightarrow>
                         Inr (users', respond (Redirect ''/'')
                                        [(''Account created successfully! Welcome.'', ''success'')]
                                        (Some saved))))
      else Inr (users, respond (Render ''signup_form.html''
                                  (if rq_submitted rq then am_SignupForm_errors email_error rq else []))
                         [] None))"

text \<open>
  An error is shown: a message was flashed with the category of errors (\<open>danger\<close> in
  anuncio, \<open>error\<close> in asset\_manager), or the rendered form has a validation error.
\<close>

definition error_category :: "string \<times> string \<Rightarrow> bool" where
  "error_category f = (snd f = ''danger'' \<or> snd f = ''error'')"

definition error_shown :: "outcome \<Rightarrow> bool" where
  "error_shown out =
     (list_ex error_category (o_flashes out)
      \<or> (case o_response out of Redirect _ \<Rightarrow> False | Render _ errs \<Rightarrow> errs \<noteq> []))"

section \<open>Claims about the redirect guard\<close>

lemma urlsplit_error: "urlsplit chk url scheme = Inl e \<Longrightarrow> e = ValueError"
  by (auto simp: urlsplit_def Let_def split: if_splits prod.splits)

lemma urlparse_error: "urlparse chk url scheme = Inl e \<Longrightarrow> e = ValueError"
  by (auto simp: urlparse_def Let_def split: sum.splits prod.splits dest: urlsplit_error)

lemma urljoin_error: "urljoin chk base url = Inl e \<Longrightarrow> e = ValueError"
  by (auto simp: urljoin_def Let_def split: sum.splits if_splits dest: urlparse_error)

lemma is_safe_url_error: "is_safe_url chk h t = Inl e \<Longrightarrow> e = ValueError"
  by (auto simp: is_safe_url_def split: sum.splits dest: urlparse_error urljoin_error)

lemma is_safe_url_raises: "urljoin chk h t = Inl e \<Longrightarrow> is_safe_url chk h t = Inl ValueError"
  by (auto simp: is_safe_url_def split: sum.splits dest: urlparse_error urljoin_error)

lemma is_safe_url_http_example:
  "is_safe_url chk ''http://example.com/'' ''http://evil.com/x'' = Inr False
   \<and> is_safe_url chk ''http://example.com/'' ''/profile'' = Inr True
   \<and> is_safe_url chk ''http://example.com/'' ''//evil.com/x'' = Inr False"
  by code_simp

lemma is_safe_url_https_example:
  "is_safe_url chk ''https://example.com/'' ''http://evil.com/x'' = Inr False
   \<and> is_safe_url chk ''https://example.com/'' ''/profile'' = Inr True
   \<and> is_safe_url chk ''https://example.com/'' ''//evil.com/x'' = Inr False"
  by code_simp

lemma is_safe_url_only_if:
  "is_safe_url chk h t = Inr True \<Longrightarrow>
     \<exists>ref_url joined target_url.
        urlparse chk h '''' = Inr ref_url \<and> urljoin chk h t = Inr joined
      \<and> urlparse chk joined '''' = Inr target_url
      \<and> (p_scheme target_url = ''http'' \<or> p_scheme target_url = ''https'')
      \<and> p_netloc ref_url = p_netloc target_url"
  by (auto simp: is_safe_url_def split: sum.splits)

text \<open>
  C3. On the host \<open>example.com\<close>, reached by \<open>http\<close> or by \<open>https\<close>, \<open>is_safe_url\<close> is false
  for \<open>http://evil.com/x\<close>, true for \<open>/profile\<close> and false for \<open>//evil.com/x\<close>. For every host
  URL and target it is true only if the target joined to the host URL parses to the scheme
  \<open>http\<close> or \<open>https\<close> and to the network location of the host URL.
\<close>

theorem is_safe_url_same_origin:
  "is_safe_url chk ''http://example.com/'' ''http://evil.com/x'' = Inr False
   \<and> is_safe_url chk ''http://example.com/'' ''/profile'' = Inr True
   \<and> is_safe_url chk ''http://example.com/'' ''//evil.com/x'' = Inr False
   \<and> is_safe_url chk ''https://example.com/'' ''http://evil.com/x'' = Inr False
   \<and> is_safe_url chk ''https://example.com/'' ''/profile'' = Inr True
   \<and> is_safe_url chk ''https://example.com/'' ''//evil.com/x'' = Inr False
   \<and> (is_safe_url chk h t = Inr True \<longrightarrow>
        (\<exists>ref_url joined target_url.
            urlparse chk h '''' = Inr ref_url \<and> urljoin chk h t = Inr joined
          \<and> urlparse chk joined '''' = Inr target_url
          \<and> (p_scheme target_url = ''http'' \<or> p_scheme target_url = ''https'')
          \<and> p_netloc ref_url = p_netloc target_url))"
  using is_safe_url_http_example[of chk] is_safe_url_https_example[of chk]
    is_safe_url_only_if[of chk h t]
  by blast

text \<open>The general part at the target \<open>/profile\<close>: it joins to \<open>http://example.com/profile\<close>.\<close>

theorem is_safe_url_same_origin_witness:
  "is_safe_url no_bracket_check ''http://example.com/'' ''/profile'' = Inr True
   \<and> urljoin no_bracket_check ''http://example.com/'' ''/profile''
       = Inr ''http://example.com/profile''
   \<and> (\<exists>ref_url target_url.
          urlparse no_bracket_check ''http://example.com/'' '''' = Inr ref_url
        \<and> urlparse no_bracket_check ''http://example.com/profile'' '''' = Inr target_url
        \<and> (p_scheme target_url = ''http'' \<or> p_scheme target_url = ''https'')
        \<and> p_netloc ref_url = p_netloc target_url)"
proof -
  have j: "urljoin no_bracket_check ''http://example.com/'' ''/profile''
             = Inr ''http://example.com/profile''"
    by code_simp
  from is_safe_url_same_origin[of no_bracket_check "''http://example.com/''" "''/profile''"] j
  show ?thesis by auto
qed

section \<open>Example requests\<close>

text \<open>
  Stand-ins for the library functions, to close the examples: a password hash that is the
  password behind a prefix, and an address check that asks for an \<open>@\<close>.
\<close>

definition example_gen_pw :: "string \<Rightarrow> string" where
  "example_gen_pw password = ''hash:'' @ password"

definition example_check_pw :: "string \<Rightarrow> string \<Rightarrow> bool" where
  "example_check_pw pwhash password = (pwhash = example_gen_pw password)"

definition example_email_error :: "string \<Rightarrow> string option" where
  "example_email_error address =
     (if CHR ''@'' \<in> set address then None else Some ''The email address is not valid.'')"

definition ana :: user where
  "ana = \<lparr>u_id = Some 1, u_name = ''Ana'', u_email = ''ana@example.com'',
          u_password_hash = example_gen_pw ''secret1''\<rparr>"

text \<open>A submitted form with Ana's address and the given passwords, from a client not logged in.\<close>

definition post :: "string \<Rightarrow> string \<Rightarrow> string option \<Rightarrow> request" where
  "post password password2 next_page =
     \<lparr>rq_authenticated = False, rq_submitted = True, rq_csrf_ok = True, rq_name = ''Ana'',
      rq_email = ''ana@example.com'', rq_password = password, rq_password2 = password2,
      rq_remember_me = False, rq_next = next_page, rq_host_url = ''http://example.com/''\<rparr>"

section \<open>Claims about login and signup\<close>

text \<open>
  A login attempt fails when no user has the address, or when the user that has it does not
  have the password.
\<close>

definition login_fails :: "(string \<Rightarrow> string \<Rightarrow> bool) \<Rightarrow> user list \<Rightarrow> request \<Rightarrow> bool" where
  "login_fails check_pw users rq =
     (case get_by_email users (rq_email rq) of
        None \<Rightarrow> True
      | Some u \<Rightarrow> \<not> check_password check_pw u (rq_password rq))"

lemma an_login_fails:
  "login_fails check_pw users rq \<Longrightarrow>
     an_login chk email_error check_pw users rq =
       (if rq_authenticated rq then Inr (respond (Redirect ''/'') [] None)
        else if rq_submitted rq \<and> an_LoginForm_errors email_error rq = []
        then Inr (respond (Redirect ''/login'')
                    [(''Credenciales inv'' @ [CHR 0xE1] @ ''lidas'', ''danger'')] None)
        else Inr (respond (Render ''login_form.html''
                           (if rq_submitted rq then an_LoginForm_errors email_error rq else []))
                  [] None))"
  by (cases "get_by_email users (rq_email rq)") (simp_all add: an_login_def login_fails_def)

lemma am_login_fails:
  "login_fails check_pw users rq \<Longrightarrow>
     am_login chk check_pw users rq =
       (if rq_authenticated rq then Inr (respond (Redirect ''/'') [] None)
        else if rq_submitted rq \<and> am_LoginForm_errors rq = []
        then Inr (respond (Render ''login_form.html'' [])
                       [(''Invalid email or password.'', ''error'')] None)
        else Inr (respond (Render ''login_form.html''
                           (if rq_submitted rq then am_LoginForm_errors rq else []))
                  [] None))"
  by (cases "get_by_email users (rq_email rq)") (simp_all add: am_login_def login_fails_def)

text \<open>
  C9. A failed login does not tell whether the address is known. For one and the same
  request, on a user table where the address is unknown and on a user table where it is
  known and the password is wrong, each variant's \<open>login\<close> has the same outcome: the same
  response, the same flashed messages, nobody logged in. The flashed message is the one
  generic message of the variant (lemmas \<open>an_login_fails\<close> and \<open>am_login_fails\<close>).
\<close>

theorem failed_logins_indistinguishable:
  "login_fails check_pw users1 rq \<and> login_fails check_pw users2 rq \<longrightarrow>
     an_login chk email_error check_pw users1 rq = an_login chk email_error check_pw users2 rq
   \<and> am_login chk check_pw users1 rq = am_login chk check_pw users2 rq"
  by (simp add: an_login_fails am_login_fails)

text \<open>
  Ana's address with a wrong password, on the empty user table and on the table that holds
  Ana.
\<close>

theorem failed_logins_indistinguishable_witness:
  "get_by_email [] (rq_email (post ''wrong'' '''' None)) = None
   \<and> get_by_email [ana] (rq_email (post ''wrong'' '''' None)) = Some ana
   \<and> \<not> check_password example_check_pw ana (rq_password (post ''wrong'' '''' None))
   \<and> an_login no_bracket_check example_email_error example_check_pw [] (post ''wrong'' '''' None)
       = an_login no_bracket_check example_email_error example_check_pw [ana] (post ''wrong'' '''' None)
   \<and> an_login no_bracket_check example_email_error example_check_pw [ana] (post ''wrong'' '''' None)
       = Inr (respond (Redirect ''/login'')
                [(''Credenciales inv'' @ [CHR 0xE1] @ ''lidas'', ''danger'')] None)
   \<and> am_login no_bracket_check example_check_pw [] (post ''wrong'' '''' None)
       = am_login no_bracket_check example_check_pw [ana] (post ''wrong'' '''' None)
   \<and> am_login no_bracket_check example_check_pw [ana] (post ''wrong'' '''' None)
       = Inr (respond (Render ''login_form.html'' [])
                [(''Invalid email or password.'', ''error'')] None)"
proof -
  let ?rq = "post ''wrong'' '''' None"
  have a: "get_by_email [] (rq_email ?rq) = None" by code_simp
  have b: "get_by_email [ana] (rq_email ?rq) = Some ana" by code_simp
  have c: "\<not> check_password example_check_pw ana (rq_password ?rq)" by code_simp
  have f1: "login_fails example_check_pw [] ?rq" using a by (simp add: login_fails_def)
  have f2: "login_fails example_check_pw [ana] ?rq" using b c by (simp add: login_fails_def)
  have d: "an_login no_bracket_check example_email_error example_check_pw [ana] ?rq
       = Inr (respond (Redirect ''/login'')
                [(''Credenciales inv'' @ [CHR 0xE1] @ ''lidas'', ''danger'')] None)"
    by code_simp
  have e: "am_login no_bracket_check example_check_pw [ana] ?rq
       = Inr (respond (Render ''login_form.html'' [])
                [(''Invalid email or password.'', ''error'')] None)"
    by code_simp
  from failed_logins_indistinguishable[of example_check_pw "[]" ?rq "[ana]"
         no_bracket_check example_email_error] f1 f2
  have "an_login no_bracket_check example_email_error example_check_pw [] ?rq
          = an_login no_bracket_check example_email_error example_check_pw [ana] ?rq
      \<and> am_login no_bracket_check example_check_pw [] ?rq
          = am_login no_bracket_check example_check_pw [ana] ?rq"
    by simp
  with a b c d e show ?thesis by simp
qed

lemma run_chain_Nil_Passed: "run_chain vs = [] \<Longrightarrow> v \<in> set vs \<Longrightarrow> v = Passed"
proof (induction vs rule: run_chain.induct)
  case 1
  then show ?case by simp
next
  case (2 vs)
  then show ?case by auto
next
  case (3 e vs)
  then show ?case by simp
next
  case (4 e vs)
  then show ?case by simp
qed

text \<open>
  In anuncio the form itself refuses a registered address (\<open>validate_email\<close>), so the test
  of the route is never reached with one: the error is a validation error of the form.
\<close>

lemma an_SignupForm_valid_unregistered:
  assumes "an_SignupForm_errors email_error users rq = []"
  shows "get_by_email users (rq_email rq) = None"
proof -
  from assms have "run_chain [DataRequired Required (rq_email rq), Email email_error (rq_email rq),
                  validate_email users (rq_email rq)] = []"
    by (simp add: an_SignupForm_errors_def)
  then have "validate_email users (rq_email rq) = Passed"
    by (rule run_chain_Nil_Passed) simp
  then show ?thesis by (simp add: validate_email_def split: if_splits)
qed

lemma an_signup_registered:
  assumes "get_by_email users (rq_email rq) \<noteq> None"
  shows "an_signup email_error gen_pw users rq =
           Inr (users,
             if rq_authenticated rq then respond (Redirect ''/'') [] None
             else respond (Render ''signup_form.html''
                    (if rq_submitted rq then an_SignupForm_errors email_error users rq else []))
                    [] None)"
proof -
  from assms an_SignupForm_valid_unregistered[of email_error users rq]
  have "an_SignupForm_errors email_error users rq \<noteq> []" by auto
  then show ?thesis by (simp add: an_signup_def)
qed

lemma am_signup_registered:
  assumes "get_by_email users (rq_email rq) \<noteq> None"
  shows "am_signup email_error gen_pw users rq =
           Inr (users,
             if rq_authenticated rq then respond (Redirect ''/'') [] None
             else if rq_submitted rq \<and> am_SignupForm_errors email_error rq = []
             then respond (Redirect ''/signup/'')
                    [(''Email address already exists. Please log in.'', ''error'')] None
             else respond (Render ''signup_form.html''
                    (if rq_submitted rq then am_SignupForm_errors email_error rq else []))
                    [] None)"
  using assms by (simp add: am_signup_def)

text \<open>
  C8 (as amended). When the address of a signup request belongs to a stored user, no user
  is created: \<open>signup\<close> returns with the user table as it was. When the form was submitted by
  a client that is not logged in, an error is shown as well: a flashed message of the error
  category, or the form rendered with a validation error. This holds in both variants.
\<close>

theorem signup_registered_email:
  "get_by_email users (rq_email rq) \<noteq> None \<longrightarrow>
     (\<exists>out. an_signup email_error gen_pw users rq = Inr (users, out)
          \<and> (\<not> rq_authenticated rq \<and> rq_submitted rq \<longrightarrow> error_shown out))
   \<and> (\<exists>out. am_signup email_error gen_pw users rq = Inr (users, out)
          \<and> (\<not> rq_authenticated rq \<and> rq_submitted rq \<longrightarrow> error_shown out))"
proof (intro impI conjI)
  assume reg: "get_by_email users (rq_email rq) \<noteq> None"
  from reg an_SignupForm_valid_unregistered[of email_error users rq]
  have ne: "an_SignupForm_errors email_error users rq \<noteq> []" by auto
  show "\<exists>out. an_signup email_error gen_pw users rq = Inr (users, out)
          \<and> (\<not> rq_authenticated rq \<and> rq_submitted rq \<longrightarrow> error_shown out)"
    using ne by (simp add: an_signup_registered[OF reg] error_shown_def respond_def)
  show "\<exists>out. am_signup email_error gen_pw users rq = Inr (users, out)
          \<and> (\<not> rq_authenticated rq \<and> rq_submitted rq \<longrightarrow> error_shown out)"
    by (simp add: am_signup_registered[OF reg] error_shown_def respond_def error_category_def)
qed

text \<open>A submitted form with Ana's address, on the table that holds Ana.\<close>

theorem signup_registered_email_witness:
  "get_by_email [ana] (rq_email (post ''secret2'' ''secret2'' None)) \<noteq> None
   \<and> an_signup example_email_error example_gen_pw [ana] (post ''secret2'' ''secret2'' None)
       = Inr ([ana], respond (Render ''signup_form.html''
                               [Message ''This email is already registered.'']) [] None)
   \<and> am_signup example_email_error example_gen_pw [ana] (post ''secret2'' ''secret2'' None)
       = Inr ([ana], respond (Redirect ''/signup/'')
                       [(''Email address already exists. Please log in.'', ''error'')] None)
   \<and> (\<exists>out. an_signup example_email_error example_gen_pw [ana] (post ''secret2'' ''secret2'' None)
               = Inr ([ana], out) \<and> error_shown out)
   \<and> (\<exists>out. am_signup example_email_error example_gen_pw [ana] (post ''secret2'' ''secret2'' None)
               = Inr ([ana], out) \<and> error_shown out)"
proof -
  let ?rq = "post ''secret2'' ''secret2'' None"
  have reg: "get_by_email [ana] (rq_email ?rq) \<noteq> None" by code_simp
  have pre: "\<not> rq_authenticated ?rq \<and> rq_submitted ?rq" by (simp add: post_def)
  have a: "an_signup example_email_error example_gen_pw [ana] ?rq
       = Inr ([ana], respond (Render ''signup_form.html''
                               [Message ''This email is already registered.'']) [] None)"
    by code_simp
  have b: "am_signup example_email_error example_gen_pw [ana] ?rq
       = Inr ([ana], respond (Redirect ''/signup/'')
                       [(''Email address already exists. Please log in.'', ''error'')] None)"
    by code_simp
  from signup_registered_email[of "[ana]" ?rq example_email_error example_gen_pw] reg pre
  have "(\<exists>out. an_signup example_email_error example_gen_pw [ana] ?rq = Inr ([ana], out)
               \<and> error_shown out)
      \<and> (\<exists>out. am_signup example_email_error example_gen_pw [ana] ?rq = Inr ([ana], out)
               \<and> error_shown out)"
    by blast
  with reg a b show ?thesis by blast
qed

text \<open>
  The claim as stated fails for a client that is already logged in: both routes test
  \<open>current_user.is_authenticated\<close> first and redirect to the home page, with no message.
\<close>

theorem signup_authenticated_no_message:
  "get_by_email [ana] (rq_email ((post ''secret2'' ''secret2'' None)\<lparr>rq_authenticated := True\<rparr>))
     = Some ana
   \<and> an_signup example_email_error example_gen_pw [ana]
        ((post ''secret2'' ''secret2'' None)\<lparr>rq_authenticated := True\<rparr>)
       = Inr ([ana], respond (Redirect ''/'') [] None)
   \<and> am_signup example_email_error example_gen_pw [ana]
        ((post ''secret2'' ''secret2'' None)\<lparr>rq_authenticated := True\<rparr>)
       = Inr ([ana], respond (Redirect ''/'') [] None)
   \<and> \<not> error_shown (respond (Redirect ''/'') [] None)"
  by code_simp

section \<open>Claims about the redirect after login\<close>

text \<open>
  The login form is valid and the credentials are those of the stored user \<open>u\<close>: the route
  reaches \<open>login_user\<close> and the test of \<open>next\<close>.
\<close>

definition an_accepts ::
  "(string \<Rightarrow> string option) \<Rightarrow> (string \<Rightarrow> string \<Rightarrow> bool) \<Rightarrow> user list \<Rightarrow> request \<Rightarrow> user \<Rightarrow> bool" where
  "an_accepts email_error check_pw users rq u =
     (\<not> rq_authenticated rq \<and> rq_submitted rq \<and> an_LoginForm_errors email_error rq = []
      \<and> get_by_email users (rq_email rq) = Some u \<and> check_password check_pw u (rq_password rq))"

definition am_accepts ::
  "(string \<Rightarrow> string \<Rightarrow> bool) \<Rightarrow> user list \<Rightarrow> request \<Rightarrow> user \<Rightarrow> bool" where
  "am_accepts check_pw users rq u =
     (\<not> rq_authenticated rq \<and> rq_submitted rq \<and> am_LoginForm_errors rq = []
      \<and> get_by_email users (rq_email rq) = Some u \<and> check_password check_pw u (rq_password rq))"

lemma an_login_next:
  assumes "an_accepts email_error check_pw users rq u" and "rq_next rq = Some t" and "t \<noteq> []"
  shows "an_login chk email_error check_pw users rq =
           (case is_safe_url chk (rq_host_url rq) t of
              Inl e \<Rightarrow> Inl e
            | Inr safe \<Rightarrow> Inr (respond (Redirect (if safe then t else ''/'')) [] (Some u)))"
  using assms by (simp add: an_login_def an_accepts_def split: sum.splits)

lemma am_login_next:
  assumes "am_accepts check_pw users rq u" and "rq_next rq = Some t" and "t \<noteq> []"
  shows "am_login chk check_pw users rq =
           (case is_safe_url chk (rq_host_url rq) t of
              Inl e \<Rightarrow> Inl e
            | Inr safe \<Rightarrow> Inr (respond (Redirect (if safe then t else ''/''))
                                 [(''Welcome back, '' @ u_name u @ ''!'', ''success'')] (Some u)))"
  using assms by (simp add: am_login_def am_accepts_def Let_def split: sum.splits)

text \<open>
  What the routes do with the verdict of \<open>is_safe_url\<close>, once the credentials are accepted.
  A target on which the parser raises makes \<open>is_safe_url\<close> raise, and the \<open>ValueError\<close> leaves
  the \<open>login\<close> route of both variants. A target that \<open>is_safe_url\<close> answers with false makes
  both routes redirect to the landing page \<open>/\<close>.
\<close>

lemma unparsable_target_raises:
  "(urljoin chk h t = Inl e \<longrightarrow> is_safe_url chk h t = Inl ValueError)
   \<and> (an_accepts email_error check_pw users rq u \<and> rq_next rq = Some t \<and> t \<noteq> [] \<longrightarrow>
        (is_safe_url chk (rq_host_url rq) t = Inl ValueError \<longrightarrow>
           an_login chk email_error check_pw users rq = Inl ValueError)
      \<and> (is_safe_url chk (rq_host_url rq) t = Inr False \<longrightarrow>
           an_login chk email_error check_pw users rq = Inr (respond (Redirect ''/'') [] (Some u))))
   \<and> (am_accepts check_pw users rq u \<and> rq_next rq = Some t \<and> t \<noteq> [] \<longrightarrow>
        (is_safe_url chk (rq_host_url rq) t = Inl ValueError \<longrightarrow>
           am_login chk check_pw users rq = Inl ValueError)
      \<and> (is_safe_url chk (rq_host_url rq) t = Inr False \<longrightarrow>
           am_login chk check_pw users rq
             = Inr (respond (Redirect ''/'') [(''Welcome back, '' @ u_name u @ ''!'', ''success'')]
                      (Some u))))"
proof (intro conjI impI)
  assume "urljoin chk h t = Inl e"
  then show "is_safe_url chk h t = Inl ValueError" by (rule is_safe_url_raises)
next
  assume a: "an_accepts email_error check_pw users rq u \<and> rq_next rq = Some t \<and> t \<noteq> []"
    and r: "is_safe_url chk (rq_host_url rq) t = Inl ValueError"
  from a have "an_login chk email_error check_pw users rq =
           (case is_safe_url chk (rq_host_url rq) t of
              Inl e \<Rightarrow> Inl e
            | Inr safe \<Rightarrow> Inr (respond (Redirect (if safe then t else ''/'')) [] (Some u)))"
    by (intro an_login_next) simp_all
  with r show "an_login chk email_error check_pw users rq = Inl ValueError" by simp
next
  assume a: "an_accepts email_error check_pw users rq u \<and> rq_next rq = Some t \<and> t \<noteq> []"
    and r: "is_safe_url chk (rq_host_url rq) t = Inr False"
  from a have "an_login chk email_error check_pw users rq =
           (case is_safe_url chk (rq_host_url rq) t of
              Inl e \<Rightarrow> Inl e
            | Inr safe \<Rightarrow> Inr (respond (Redirect (if safe then t else ''/'')) [] (Some u)))"
    by (intro an_login_next) simp_all
  with r show "an_login chk email_error check_pw users rq
                 = Inr (respond (Redirect ''/'') [] (Some u))" by simp
next
  assume a: "am_accepts check_pw users rq u \<and> rq_next rq = Some t \<and> t \<noteq> []"
    and r: "is_safe_url chk (rq_host_url rq) t = Inl ValueError"
  from a have "am_login chk check_pw users rq =
           (case is_safe_url chk (rq_host_url rq) t of
              Inl e \<Rightarrow> Inl e
            | Inr safe \<Rightarrow> Inr (respond (Redirect (if safe then t else ''/''))
                                 [(''Welcome back, '' @ u_name u @ ''!'', ''success'')] (Some u)))"
    by (intro am_login_next) simp_all
  with r show "am_login chk check_pw users rq = Inl ValueError" by simp
next
  assume a: "am_accepts check_pw users rq u \<and> rq_next rq = Some t \<and> t \<noteq> []"
    and r: "is_safe_url chk (rq_host_url rq) t = Inr False"
  from a have "am_login chk check_pw users rq =
           (case is_safe_url chk (rq_host_url rq) t of
              Inl e \<Rightarrow> Inl e
            | Inr safe \<Rightarrow> Inr (respond (Redirect (if safe then t else ''/''))
                                 [(''Welcome back, '' @ u_name u @ ''!'', ''success'')] (Some u)))"
    by (intro am_login_next) simp_all
  with r show "am_login chk check_pw users rq
             = Inr (respond (Redirect ''/'') [(''Welcome back, '' @ u_name u @ ''!'', ''success'')]
                      (Some u))" by simp
qed

text \<open>
  Ana logs in with her password; \<open>next\<close> is \<open>//[\<close>, which \<open>urlsplit\<close> refuses as an invalid
  IPv6 URL, or \<open>//evil.com/x\<close>, which is unsafe.
\<close>

lemma unparsable_target_raises_example:
  "urljoin no_bracket_check ''http://example.com/'' ''//['' = Inl ValueError
   \<and> is_safe_url no_bracket_check ''http://example.com/'' ''//['' = Inl ValueError
   \<and> an_accepts example_email_error example_check_pw [ana] (post ''secret1'' '''' (Some ''//['')) ana
   \<and> am_accepts example_check_pw [ana] (post ''secret1'' '''' (Some ''//['')) ana
   \<and> an_login no_bracket_check example_email_error example_check_pw [ana]
        (post ''secret1'' '''' (Some ''//['')) = Inl ValueError
   \<and> am_login no_bracket_check example_check_pw [ana]
        (post ''secret1'' '''' (Some ''//['')) = Inl ValueError
   \<and> is_safe_url no_bracket_check ''http://example.com/'' ''//evil.com/x'' = Inr False
   \<and> an_login no_bracket_check example_email_error example_check_pw [ana]
        (post ''secret1'' '''' (Some ''//evil.com/x''))
       = Inr (respond (Redirect ''/'') [] (Some ana))
   \<and> am_login no_bracket_check example_check_pw [ana]
        (post ''secret1'' '''' (Some ''//evil.com/x''))
       = Inr (respond (Redirect ''/'') [(''Welcome back, Ana!'', ''success'')] (Some ana))"
proof -
  let ?bad = "post ''secret1'' '''' (Some ''//['')"
  let ?evil = "post ''secret1'' '''' (Some ''//evil.com/x'')"
  have j: "urljoin no_bracket_check ''http://example.com/'' ''//['' = Inl ValueError"
    by code_simp
  have a1: "an_accepts example_email_error example_check_pw [ana] ?bad ana" by code_simp
  have a2: "am_accepts example_check_pw [ana] ?bad ana" by code_simp
  have a3: "an_accepts example_email_error example_check_pw [ana] ?evil ana" by code_simp
  have a4: "am_accepts example_check_pw [ana] ?evil ana" by code_simp
  have n1: "rq_next ?bad = Some ''//['' \<and> rq_host_url ?bad = ''http://example.com/''"
    by (simp add: post_def)
  have n2: "rq_next ?evil = Some ''//evil.com/x'' \<and> rq_host_url ?evil = ''http://example.com/''"
    by (simp add: post_def)
  have s: "is_safe_url no_bracket_check ''http://example.com/'' ''//evil.com/x'' = Inr False"
    by code_simp
  have nm: "u_name ana = ''Ana''" by (simp add: ana_def)
  note bad = unparsable_target_raises[of no_bracket_check "''http://example.com/''" "''//[''"
      ValueError example_email_error example_check_pw "[ana]" ?bad ana]
  note evil = unparsable_target_raises[of no_bracket_check "''http://example.com/''"
      "''//evil.com/x''" ValueError example_email_error example_check_pw "[ana]" ?evil ana]
  from bad j have r: "is_safe_url no_bracket_check ''http://example.com/'' ''//['' = Inl ValueError"
    by blast
  from bad a1 a2 n1 r
  have b: "an_login no_bracket_check example_email_error example_check_pw [ana] ?bad = Inl ValueError
         \<and> am_login no_bracket_check example_check_pw [ana] ?bad = Inl ValueError"
    by simp
  from evil a3 a4 n2 s nm
  have c: "an_login no_bracket_check example_email_error example_check_pw [ana] ?evil
             = Inr (respond (Redirect ''/'') [] (Some ana))
         \<and> am_login no_bracket_check example_check_pw [ana] ?evil
             = Inr (respond (Redirect ''/'') [(''Welcome back, Ana!'', ''success'')] (Some ana))"
    by simp
  from j r a1 a2 b s c show ?thesis by simp
qed

text \<open>
  C4. A malformed target is to be treated as unsafe: \<open>is_safe_url\<close> returns false and the
  login falls back to the landing page. The code does not do so at the target \<open>//[\<close>, which
  \<open>urlsplit\<close> refuses as an invalid IPv6 URL. \<open>is_safe_url\<close> has no handler around the parser,
  so it raises the \<open>ValueError\<close> instead of returning false, and the login of Ana with her
  password ends in that error in both variants, not in the redirect to \<open>/\<close>.
\<close>

theorem malformed_target_not_false:
  "is_safe_url no_bracket_check ''http://example.com/'' ''//['' = Inl ValueError
   \<and> is_safe_url no_bracket_check ''http://example.com/'' ''//['' \<noteq> Inr False
   \<and> an_login no_bracket_check example_email_error example_check_pw [ana]
        (post ''secret1'' '''' (Some ''//['')) = Inl ValueError
   \<and> am_login no_bracket_check example_check_pw [ana]
        (post ''secret1'' '''' (Some ''//['')) = Inl ValueError"
  by code_simp

end
